theory Spec2Isabelle
  imports Main "HOL-Library.AList"
begin

section \<open>JavaScript strings and containers\<close>

text \<open>
  A JavaScript string is modelled as a \<^typ>\<open>string\<close>: a list of code units, here the
  code units below 256. An index that is out of range reads \<open>undefined\<close>, which is
  \<^term>\<open>None\<close> in \<open>charAt\<close>. \<open>Array.prototype.join\<close>, \<open>String.prototype.startsWith\<close>,
  \<open>endsWith\<close>, \<open>includes\<close>, \<open>indexOf\<close> and \<open>slice\<close> are written out as the
  functions below.
\<close>

definition charAt :: "string \<Rightarrow> nat \<Rightarrow> char option" where
  "charAt s i = (if i < length s then Some (s ! i) else None)"

fun join :: "string \<Rightarrow> string list \<Rightarrow> string" where
  "join sep [] = []"
| "join sep [x] = x"
| "join sep (x # y # ys) = x @ sep @ join sep (y # ys)"

definition startsWith :: "string \<Rightarrow> string \<Rightarrow> bool" where
  "startsWith s p = (take (length p) s = p)"

definition endsWith :: "string \<Rightarrow> string \<Rightarrow> bool" where
  "endsWith s p = (length p \<le> length s \<and> drop (length s - length p) s = p)"

fun includes_str :: "string \<Rightarrow> string \<Rightarrow> bool" where
  "includes_str [] p = (p = [])"
| "includes_str (c # cs) p = (startsWith (c # cs) p \<or> includes_str cs p)"

text \<open>
  \<open>s.indexOf(p, from)\<close>: the least index \<open>i \<ge> from\<close> at which \<open>p\<close> occurs in \<open>s\<close>,
  \<^term>\<open>None\<close> for the result \<open>-1\<close>. \<open>indexOfFrom\<close> searches a suffix and counts from
  the position \<open>i\<close> of that suffix.
\<close>

fun indexOfFrom :: "string \<Rightarrow> string \<Rightarrow> nat \<Rightarrow> nat option" where
  "indexOfFrom [] p i = (if p = [] then Some i else None)"
| "indexOfFrom (c # cs) p i =
     (if startsWith (c # cs) p then Some i else indexOfFrom cs p (Suc i))"

definition indexOf :: "string \<Rightarrow> string \<Rightarrow> nat \<Rightarrow> nat option" where
  "indexOf s p from = indexOfFrom (drop from s) p (min from (length s))"

definition slice :: "string \<Rightarrow> nat \<Rightarrow> nat \<Rightarrow> string" where
  "slice s a b = take (b - a) (drop a s)"

text \<open>The character classes \<open>\s\<close> and \<open>\w\<close> of a regular expression without flags.\<close>

definition isSpace :: "char \<Rightarrow> bool" where
  "isSpace c = (c \<in> set [CHR 0x09, CHR 0x0A, CHR 0x0B, CHR 0x0C, CHR 0x0D, CHR 0x20, CHR 0xA0])"

definition isWord :: "char \<Rightarrow> bool" where
  "isWord c = (let n = (of_char c :: nat) in
     (65 \<le> n \<and> n \<le> 90) \<or> (97 \<le> n \<and> n \<le> 122) \<or> (48 \<le> n \<and> n \<le> 57) \<or> n = 95)"

text \<open>\<open>String(n)\<close> for a non-negative integer: its decimal digits.\<close>

definition digit :: "nat \<Rightarrow> char" where
  "digit d = char_of (48 + d)"

fun String_nat :: "nat \<Rightarrow> string" where
  "String_nat n = (if n < 10 then [digit n] else String_nat (n div 10) @ [digit (n mod 10)])"

declare String_nat.simps [simp del]

text \<open>
  A JavaScript \<open>Map\<close> keeps its entries in insertion order, and \<open>set\<close> on a key that is
  present replaces the value where the entry stands: an association list under
  \<^const>\<open>AList.update\<close>. \<open>new Map(entries)\<close> sets the entries one after the other.
\<close>

type_synonym ('k, 'v) jsmap = "('k \<times> 'v) list"

definition map_get :: "('k, 'v) jsmap \<Rightarrow> 'k \<Rightarrow> 'v option" where
  "map_get m k = map_of m k"

definition map_set :: "('k, 'v) jsmap \<Rightarrow> 'k \<Rightarrow> 'v \<Rightarrow> ('k, 'v) jsmap" where
  "map_set m k v = AList.update k v m"

definition new_Map :: "('k \<times> 'v) list \<Rightarrow> ('k, 'v) jsmap" where
  "new_Map entries = foldl (\<lambda>m (k, v). map_set m k v) [] entries"

section \<open>engine/types.ts\<close>

datatype Severity = blocker | high | med | low | info

datatype StackName = auto | nextjs | vite | nestjs

record Finding =
  ruleId :: string
  severity :: Severity
  message :: string
  file_path :: string
  line :: "nat option"
  col :: "nat option"
  fixHint :: "string option"

fun Severity_str :: "Severity \<Rightarrow> string" where
  "Severity_str blocker = ''blocker''"
| "Severity_str high = ''high''"
| "Severity_str med = ''med''"
| "Severity_str low = ''low''"
| "Severity_str info = ''info''"

section \<open>engine/report.ts\<close>

record Summary =
  n_blocker :: nat
  n_high :: nat
  n_med :: nat
  n_low :: nat
  n_info :: nat

definition bump :: "Summary \<Rightarrow> Finding \<Rightarrow> Summary" where
  "bump acc f = (case severity f of
       blocker \<Rightarrow> acc\<lparr>n_blocker := n_blocker acc + 1\<rparr>
     | high \<Rightarrow> acc\<lparr>n_high := n_high acc + 1\<rparr>
     | med \<Rightarrow> acc\<lparr>n_med := n_med acc + 1\<rparr>
     | low \<Rightarrow> acc\<lparr>n_low := n_low acc + 1\<rparr>
     | info \<Rightarrow> acc\<lparr>n_info := n_info acc + 1\<rparr>)"

definition summarize :: "Finding list \<Rightarrow> Summary" where
  "summarize findings =
     foldl bump \<lparr>n_blocker = 0, n_high = 0, n_med = 0, n_low = 0, n_info = 0\<rparr> findings"

text \<open>A count is truthy when it is not zero.\<close>

definition exitCode :: "Finding list \<Rightarrow> bool \<Rightarrow> nat" where
  "exitCode findings strict =
     (if \<not> strict then 0
      else let s = summarize findings in
        if n_blocker s \<noteq> 0 then 2
        else if n_high s \<noteq> 0 then 1
        else 0)"

section \<open>engine/baseline.ts\<close>

text \<open>
  The baseline document. A count is a non-negative integer, as the layout of the document
  states; two items may carry the same key, and \<open>new Map\<close> then keeps the last.
\<close>

record Baseline =
  version :: nat
  items :: "(string \<times> nat) list"

text \<open>\<open>String(f.line ?? "")\<close>: the digits of the line, the empty string when it is absent.\<close>

definition String_opt :: "nat option \<Rightarrow> string" where
  "String_opt x = (case x of None \<Rightarrow> [] | Some n \<Rightarrow> String_nat n)"

definition keyOf :: "Finding \<Rightarrow> string" where
  "keyOf f = join ''|''
     [ruleId f, Severity_str (severity f), file_path f, String_opt (line f), String_opt (col f), message f]"

text \<open>
  \<open>writeBaseline\<close> counts the findings by key and writes the document; the model returns
  the document that is written.
\<close>

definition countStep :: "(string, nat) jsmap \<Rightarrow> Finding \<Rightarrow> (string, nat) jsmap" where
  "countStep counts f =
     (let k = keyOf f in
      map_set counts k ((case map_get counts k of None \<Rightarrow> 0 | Some c \<Rightarrow> c) + 1))"

definition writeBaseline :: "Finding list \<Rightarrow> Baseline" where
  "writeBaseline findings = \<lparr>version = 1, items = foldl countStep [] findings\<rparr>"

text \<open>
  The loop of \<open>applyBaseline\<close> carries the map \<open>seen\<close> and the list \<open>out\<close>; \<open>allowed\<close> is
  fixed.
\<close>

definition applyStep ::
  "(string, nat) jsmap \<Rightarrow> (string, nat) jsmap \<times> Finding list \<Rightarrow> Finding
     \<Rightarrow> (string, nat) jsmap \<times> Finding list" where
  "applyStep allowed st f =
     (let seen = fst st; out = snd st;
          k = keyOf f;
          cur = (case map_get seen k of None \<Rightarrow> 0 | Some c \<Rightarrow> c);
          lim = (case map_get allowed k of None \<Rightarrow> 0 | Some c \<Rightarrow> c)
      in if cur < lim then (map_set seen k (cur + 1), out) else (seen, out @ [f]))"

definition applyBaseline :: "Finding list \<Rightarrow> Baseline \<Rightarrow> Finding list" where
  "applyBaseline findings baseline =
     snd (foldl (applyStep (new_Map (items baseline))) ([], []) findings)"

section \<open>rules/\_shared.ts and engine/sarif.ts\<close>

text \<open>
  \<open>pre.split(/\r?\n/)\<close>: a line feed, with the carriage return before it when there is
  one, ends a line; a carriage return alone does not. The result is never empty.
\<close>

fun split_lines :: "string \<Rightarrow> string list" where
  "split_lines [] = [[]]"
| "split_lines (c # cs) =
     (if c = CHR 0x0A then [] # split_lines cs
      else if c = CHR 0x0D \<and> (case cs of [] \<Rightarrow> False | d # _ \<Rightarrow> d = CHR 0x0A)
        then [] # split_lines (tl cs)
      else (case split_lines cs of l # ls \<Rightarrow> (c # l) # ls | [] \<Rightarrow> [[c]]))"

record LineCol =
  lc_line :: nat
  lc_col :: nat

text \<open>\<open>code.slice(0, Math.max(0, idx))\<close> for an integer \<open>idx\<close>.\<close>

definition firstLineCol :: "string \<Rightarrow> int \<Rightarrow> LineCol" where
  "firstLineCol code idx =
     (let pre = slice code 0 (nat (max 0 idx));
          lines = split_lines pre
      in \<lparr>lc_line = length lines, lc_col = length (last lines)\<rparr>)"

record SarifResult =
  sr_ruleId :: string
  sr_level :: string
  sr_text :: string
  sr_uri :: string
  sr_startLine :: nat
  sr_startColumn :: nat

definition toSarifResult :: "string \<Rightarrow> Finding \<Rightarrow> SarifResult" where
  "toSarifResult rootDir f =
     \<lparr>sr_ruleId = ruleId f,
      sr_level = (if severity f = blocker \<or> severity f = high then ''error''
                  else if severity f = med then ''warning'' else ''note''),
      sr_text = message f,
      sr_uri = (if startsWith (file_path f) rootDir
                then drop (length rootDir + 1) (file_path f) else file_path f),
      sr_startLine = (case line f of None \<Rightarrow> 1 | Some l \<Rightarrow> l),
      sr_startColumn = (case col f of None \<Rightarrow> 0 | Some c \<Rightarrow> c) + 1\<rparr>"

definition toSarif :: "Finding list \<Rightarrow> string \<Rightarrow> SarifResult list" where
  "toSarif findings rootDir = map (toSarifResult rootDir) findings"

text \<open>
  How the rules place a finding: the fields \<open>line\<close> and \<open>col\<close> are those of
  \<open>firstLineCol(code, idx)\<close>, spread into the finding.
\<close>

definition located :: "Finding \<Rightarrow> string \<Rightarrow> int \<Rightarrow> Finding" where
  "located f code idx =
     f\<lparr>line := Some (lc_line (firstLineCol code idx)), col := Some (lc_col (firstLineCol code idx))\<rparr>"

section \<open>rules/prisma: the inline argument scanner\<close>

text \<open>
  The loop that skips white space and comments after the parenthesis. It returns the index
  at which it breaks or ends, and \<^term>\<open>None\<close> where the source returns \<open>null\<close> from
  inside the loop (a comment that is not closed).
\<close>

function skipLoop :: "string \<Rightarrow> nat \<Rightarrow> nat option" where
  "skipLoop snippet i =
     (if i < length snippet then
        (let ch = snippet ! i in
         if isSpace ch then skipLoop snippet (i + 1)
         else if ch = CHR ''/'' \<and> charAt snippet (i + 1) = Some CHR ''/'' then
           (case indexOf snippet [CHR 0x0A] (i + 2) of
              None \<Rightarrow> None
            | Some nl \<Rightarrow> skipLoop snippet (nl + 1))
         else if ch = CHR ''/'' \<and> charAt snippet (i + 1) = Some CHR ''*'' then
           (case indexOf snippet ''*/'' (i + 2) of
              None \<Rightarrow> None
            | Some e \<Rightarrow> skipLoop snippet (e + 2))
         else Some i)
      else Some i)"
  by pat_completeness auto
termination
proof (relation "measure (\<lambda>(snippet, i). length snippet - i)")
  have lower: "indexOfFrom s p k = Some n \<Longrightarrow> k \<le> n" for s p k n
    by (induction s p k rule: indexOfFrom.induct) (auto split: if_splits)
  have found: "indexOf s p k = Some n \<Longrightarrow> i + 2 \<le> k \<Longrightarrow> i < length s \<Longrightarrow> i < n" for s p k n i
    using lower [of "drop k s" p "min k (length s)" n] by (auto simp: indexOf_def)
  show "wf (measure (\<lambda>(snippet, i). length snippet - i))" by simp
  show "\<And>snippet i x. i < length snippet \<Longrightarrow> x = snippet ! i \<Longrightarrow> isSpace x \<Longrightarrow>
      ((snippet, i + 1), snippet, i) \<in> measure (\<lambda>(snippet, i). length snippet - i)"
    by auto
  show "\<And>snippet i x x2. i < length snippet \<Longrightarrow> x = snippet ! i \<Longrightarrow> \<not> isSpace x \<Longrightarrow>
      x = CHR ''/'' \<and> charAt snippet (i + 1) = Some CHR ''/'' \<Longrightarrow>
      indexOf snippet [CHR 0x0A] (i + 2) = Some x2 \<Longrightarrow>
      ((snippet, x2 + 1), snippet, i) \<in> measure (\<lambda>(snippet, i). length snippet - i)"
    using found by fastforce
  show "\<And>snippet i x x2. i < length snippet \<Longrightarrow> x = snippet ! i \<Longrightarrow> \<not> isSpace x \<Longrightarrow>
      \<not> (x = CHR ''/'' \<and> charAt snippet (i + 1) = Some CHR ''/'') \<Longrightarrow>
      x = CHR ''/'' \<and> charAt snippet (i + 1) = Some CHR ''*'' \<Longrightarrow>
      indexOf snippet ''*/'' (i + 2) = Some x2 \<Longrightarrow>
      ((snippet, x2 + 2), snippet, i) \<in> measure (\<lambda>(snippet, i). length snippet - i)"
    using found by fastforce
qed

text \<open>The loop that follows the depth of the braces from \<open>firstBrace\<close>.\<close>

function depthLoop :: "string \<Rightarrow> nat \<Rightarrow> nat \<Rightarrow> int \<Rightarrow> string option" where
  "depthLoop snippet firstBrace j depth =
     (if j < length snippet then
        (let ch = snippet ! j;
             depth' = (if ch = CHR ''{'' then depth + 1
                       else if ch = CHR ''}'' then depth - 1 else depth)
         in if depth' = 0 then Some (slice snippet firstBrace (j + 1))
            else depthLoop snippet firstBrace (j + 1) depth')
      else None)"
  by pat_completeness auto
termination
  by (relation "measure (\<lambda>(snippet, firstBrace, j, depth). length snippet - j)") auto

declare skipLoop.simps [simp del] depthLoop.simps [simp del]

definition extractInlineFirstArgObject :: "string \<Rightarrow> string option" where
  "extractInlineFirstArgObject snippet =
     (case indexOf snippet ''('' 0 of
        None \<Rightarrow> None
      | Some openParen \<Rightarrow>
          (case skipLoop snippet (openParen + 1) of
             None \<Rightarrow> None
           | Some i \<Rightarrow>
               if charAt snippet i \<noteq> Some CHR ''{'' then None
               else depthLoop snippet i i 0))"

section \<open>rules/prisma: the key test\<close>

text \<open>
  \<open>new RegExp(`\\b${key}\\b\\s*:`, "m")\<close>. The key is pasted into the pattern as it is,
  so its characters are pattern syntax: a dot stands for any character but a line
  terminator, and every character that is not a syntax character stands for itself. Keys
  with another syntax character (\<open>\ ^ $ * + ? ( ) [ ] { } |\<close>) are outside the fragment of
  patterns modelled here, and \<open>compileKey\<close> gives \<^term>\<open>None\<close> for them.
\<close>

datatype atom = Lit char | AnyChar

definition otherSyntaxChars :: "char list" where
  "otherSyntaxChars = [CHR 0x5C, CHR ''^'', CHR ''$'', CHR ''*'', CHR ''+'', CHR ''?'',
     CHR ''('', CHR '')'', CHR ''['', CHR '']'', CHR ''{'', CHR ''}'', CHR ''|'']"

fun compileKey :: "string \<Rightarrow> atom list option" where
  "compileKey [] = Some []"
| "compileKey (c # cs) =
     (if c \<in> set otherSyntaxChars then None
      else map_option ((#) (if c = CHR ''.'' then AnyChar else Lit c)) (compileKey cs))"

fun atomMatches :: "atom \<Rightarrow> char \<Rightarrow> bool" where
  "atomMatches (Lit d) c = (c = d)"
| "atomMatches AnyChar c = (c \<noteq> CHR 0x0A \<and> c \<noteq> CHR 0x0D)"

text \<open>The atoms of the key against the start of a text: the rest of the text on success.\<close>

fun matchAtoms :: "atom list \<Rightarrow> string \<Rightarrow> string option" where
  "matchAtoms [] s = Some s"
| "matchAtoms (a # as) [] = None"
| "matchAtoms (a # as) (c # cs) = (if atomMatches a c then matchAtoms as cs else None)"

definition headOpt :: "string \<Rightarrow> char option" where
  "headOpt s = (case s of [] \<Rightarrow> None | c # _ \<Rightarrow> Some c)"

definition lastOr :: "char option \<Rightarrow> string \<Rightarrow> char option" where
  "lastOr prev s = (if s = [] then prev else Some (last s))"

text \<open>\<open>\b\<close>: exactly one of the characters on the two sides is a word character.\<close>

definition wordBoundary :: "char option \<Rightarrow> char option \<Rightarrow> bool" where
  "wordBoundary a b =
     ((case a of None \<Rightarrow> False | Some c \<Rightarrow> isWord c) \<noteq> (case b of None \<Rightarrow> False | Some c \<Rightarrow> isWord c))"

text \<open>\<open>\s*:\<close> is greedy white space and then a colon; a colon is no white space.\<close>

definition colonAfterSpace :: "string \<Rightarrow> bool" where
  "colonAfterSpace s = (case dropWhile isSpace s of [] \<Rightarrow> False | c # _ \<Rightarrow> c = CHR '':'')"

text \<open>The whole pattern at one position: \<open>prev\<close> is the character before it.\<close>

definition matchHere :: "atom list \<Rightarrow> char option \<Rightarrow> string \<Rightarrow> bool" where
  "matchHere atoms prev s =
     (wordBoundary prev (headOpt s) \<and>
      (case matchAtoms atoms s of
         None \<Rightarrow> False
       | Some rest \<Rightarrow>
           wordBoundary (lastOr prev (take (length atoms) s)) (headOpt rest) \<and>
           colonAfterSpace rest))"

text \<open>\<open>re.test(whereBlock)\<close> tries every position from the left.\<close>

fun regexTest :: "atom list \<Rightarrow> char option \<Rightarrow> string \<Rightarrow> bool" where
  "regexTest atoms prev [] = matchHere atoms prev []"
| "regexTest atoms prev (c # cs) = (matchHere atoms prev (c # cs) \<or> regexTest atoms (Some c) cs)"

datatype model_limit = PatternNotModelled

fun whereHasTenantKey :: "string \<Rightarrow> string list \<Rightarrow> model_limit + bool" where
  "whereHasTenantKey whereBlock [] = Inr False"
| "whereHasTenantKey whereBlock (key # tenantKeys) =
     (case compileKey key of
        None \<Rightarrow> Inl PatternNotModelled
      | Some atoms \<Rightarrow>
          if regexTest atoms None whereBlock then Inr True
          else whereHasTenantKey whereBlock tenantKeys)"

text \<open>
  The words of the specification: the key occurs in the block at position \<open>i\<close> as it is
  written, delimited by word boundaries, and is followed, after optional white space, by
  a colon.
\<close>

definition keyOccursAt :: "string \<Rightarrow> string \<Rightarrow> nat \<Rightarrow> bool" where
  "keyOccursAt block key i =
     (startsWith (drop i block) key \<and>
      wordBoundary (lastOr None (take i block)) (headOpt (drop i block)) \<and>
      wordBoundary (lastOr None (take (i + length key) block)) (headOpt (drop (i + length key) block)) \<and>
      colonAfterSpace (drop (i + length key) block))"

definition blockContainsKey :: "string \<Rightarrow> string list \<Rightarrow> bool" where
  "blockContainsKey block candidateKeys =
     list_ex (\<lambda>key. list_ex (keyOccursAt block key) [0..<Suc (length block)]) candidateKeys"

definition plainKey :: "string \<Rightarrow> bool" where
  "plainKey key = list_all (\<lambda>c. c \<noteq> CHR ''.'' \<and> c \<notin> set otherSyntaxChars) key"

section \<open>engine/types.ts: configuration, context and rules\<close>

text \<open>
  A rejected promise or a thrown value is a \<open>js_error\<close>; it carries the text that
  \<open>String(e?.message ?? e)\<close> gives. An asynchronous function returns \<open>js_error + 'a\<close>.
\<close>

datatype js_error = JsError string

fun error_message :: "js_error \<Rightarrow> string" where
  "error_message (JsError m) = m"

datatype AuthKind = kind_auto | nextauth | clerk | betterauth | custom | kind_none

text \<open>
  \<open>config.auth\<close> is typed as an \<open>AuthKind\<close>, and \<open>mergeWithUserConfig\<close> reads it through
  \<open>any\<close> as an object with the optional arrays \<open>guards\<close>, \<open>publicApiExact\<close>,
  \<open>publicApiPrefix\<close> and \<open>proxyApiPrefix\<close>; a field that is absent or no array is
  \<^term>\<open>None\<close>. The arrays hold strings, as in the shape the source documents.
\<close>

record AuthLists =
  cfg_guards :: "string list option"
  cfg_publicApiExact :: "string list option"
  cfg_publicApiPrefix :: "string list option"
  cfg_proxyApiPrefix :: "string list option"

datatype AuthSetting = AuthKindValue AuthKind | AuthObject AuthLists | AuthAbsent

record DiscoveredAuth =
  guards :: "string list"
  publicApiExact :: "string list"
  publicApiPrefix :: "string list"
  proxyApiPrefix :: "string list"

text \<open>
  \<open>discoveredAuth\<close> is the slot \<open>__discoveredAuth\<close> that \<open>runRules\<close> stashes on the
  configuration: \<^term>\<open>None\<close> before the prepass, the empty object \<open>{}\<close> after a failed one.
\<close>

datatype Stash = Discovered DiscoveredAuth | EmptyObject

record CheckerConfig =
  stack :: StackName
  auth :: AuthSetting
  authGuards :: "string list"
  ignore :: "string list"
  maxFileBytes :: nat
  discoveredAuth :: "Stash option"

record RuleContext =
  rootDir :: string
  files :: "string list"
  relPaths :: "string list"
  readFile :: "string \<Rightarrow> js_error + string"
  config :: CheckerConfig
  repo_stack :: StackName

text \<open>
  A promise, once settled, is fulfilled with a value or rejected with an error.
\<close>

datatype 'a promise = Fulfilled 'a | Rejected js_error

text \<open>
  The \<open>run\<close> of a rule has the type \<open>(ctx: RuleContext) => Promise<Finding[]>\<close>. A call of it
  has one of three outcomes: it throws before it returns anything (\<open>Inl\<close>), as a function
  that is not \<open>async\<close> may, or it returns a promise (\<open>Inr\<close>), which is fulfilled with
  findings or rejected with an error. An \<open>async\<close> function, as the rules of the repository
  are written, always returns a promise. A rule is a function of the context it is given.
\<close>

record Rule =
  rule_id :: string
  description :: string
  rule_stack :: "StackName list"
  run :: "RuleContext \<Rightarrow> js_error + Finding list promise"

section \<open>utils/discoverAuthGuards.ts\<close>

definition COMMON_GUARDS :: "string list" where
  "COMMON_GUARDS =
     [''getServerSession'', ''unstable_getServerSession'', ''auth'', ''currentUser'',
      ''requireAuth'', ''requireUser'', ''requireWorkspace'', ''requireAuthedWorkspace'',
      ''withWorkspace'', ''withFeatureFlag'']"

text \<open>
  A JavaScript \<open>Set\<close> of strings keeps the order of insertion: a list without duplicates,
  where \<open>add\<close> of a present element changes nothing.
\<close>

definition set_add :: "string list \<Rightarrow> string \<Rightarrow> string list" where
  "set_add xs x = (if x \<in> set xs then xs else xs @ [x])"

definition new_Set :: "string list \<Rightarrow> string list" where
  "new_Set xs = foldl set_add [] xs"

text \<open>\<open>[...new Set(arr.filter(Boolean))]\<close>: the empty string is the falsy string.\<close>

definition uniq :: "string list \<Rightarrow> string list" where
  "uniq arr = new_Set (filter (\<lambda>s. s \<noteq> []) arr)"

definition trim :: "string \<Rightarrow> string" where
  "trim s = rev (dropWhile isSpace (rev (dropWhile isSpace s)))"

definition normalizeApiPath :: "string \<Rightarrow> string" where
  "normalizeApiPath p =
     (let s = trim p in
      if s = [] then s
      else let s1 = (if \<not> startsWith s ''/'' then ''/'' @ s else s) in
        if length s1 > 1 \<and> endsWith s1 ''/'' then take (length s1 - 1) s1 else s1)"

text \<open>
  The regular expressions of the file are written out as matchers on the rest of the
  text. \<open>\s+\<close> and the class of the name are greedy, and what follows them never begins
  with a character of their class, so no shorter match need be tried.
\<close>

definition spaces1 :: "string \<Rightarrow> string option" where
  "spaces1 s = (case s of [] \<Rightarrow> None
     | c # cs \<Rightarrow> if isSpace c then Some (dropWhile isSpace cs) else None)"

definition literal :: "string \<Rightarrow> string \<Rightarrow> string option" where
  "literal p s = (if startsWith s p then Some (drop (length p) s) else None)"

definition identChars :: "string \<Rightarrow> (string \<times> string) option" where
  "identChars s = (let name = takeWhile isWord s in
     if name = [] then None else Some (name, dropWhile isWord s))"

text \<open>
  \<open>/export\s+(?:async\s+)?function\s+([A-Za-z0-9_]+)/\<close> at the start of \<open>s\<close>: the name and
  the length of the match.
\<close>

definition matchExportFunction :: "string \<Rightarrow> (string \<times> nat) option" where
  "matchExportFunction s =
     (case literal ''export'' s of None \<Rightarrow> None | Some s1 \<Rightarrow>
      case spaces1 s1 of None \<Rightarrow> None | Some s2 \<Rightarrow>
      let s3 = (case literal ''async'' s2 of None \<Rightarrow> s2
                | Some t \<Rightarrow> (case spaces1 t of None \<Rightarrow> s2 | Some t' \<Rightarrow> t')) in
      case literal ''function'' s3 of None \<Rightarrow> None | Some s4 \<Rightarrow>
      case spaces1 s4 of None \<Rightarrow> None | Some s5 \<Rightarrow>
      case identChars s5 of None \<Rightarrow> None
      | Some (name, rest) \<Rightarrow> Some (name, length s - length rest))"

text \<open>\<open>/export\s+const\s+([A-Za-z0-9_]+)\s*=/\<close> at the start of \<open>s\<close>.\<close>

definition matchExportConst :: "string \<Rightarrow> (string \<times> nat) option" where
  "matchExportConst s =
     (case literal ''export'' s of None \<Rightarrow> None | Some s1 \<Rightarrow>
      case spaces1 s1 of None \<Rightarrow> None | Some s2 \<Rightarrow>
      case literal ''const'' s2 of None \<Rightarrow> None | Some s3 \<Rightarrow>
      case spaces1 s3 of None \<Rightarrow> None | Some s4 \<Rightarrow>
      case identChars s4 of None \<Rightarrow> None
      | Some (name, s5) \<Rightarrow>
          (case literal ''='' (dropWhile isSpace s5) of None \<Rightarrow> None
           | Some rest \<Rightarrow> Some (name, length s - length rest)))"

text \<open>
  \<open>while ((m = re.exec(code)))\<close> with a global expression: the matches from left to right,
  each search starting where the last match ended. \<open>skip\<close> counts the characters of the
  last match that are still to pass.
\<close>

fun execAll :: "(string \<Rightarrow> (string \<times> nat) option) \<Rightarrow> nat \<Rightarrow> string \<Rightarrow> string list" where
  "execAll m skip [] = []"
| "execAll m skip (c # cs) =
     (if skip > 0 then execAll m (skip - 1) cs
      else case m (c # cs) of
             None \<Rightarrow> execAll m 0 cs
           | Some (name, len) \<Rightarrow> name # execAll m (len - 1) cs)"

definition toLowerCase_char :: "char \<Rightarrow> char" where
  "toLowerCase_char c = (let n = (of_char c :: nat) in
     if 65 \<le> n \<and> n \<le> 90 then char_of (n + 32) else c)"

text \<open>\<open>/^require/i.test(name) || /^with/i.test(name)\<close>\<close>

definition guardPrefix :: "string \<Rightarrow> bool" where
  "guardPrefix name = (startsWith (map toLowerCase_char name) ''require''
                       \<or> startsWith (map toLowerCase_char name) ''with'')"

definition addDeclared :: "string list \<Rightarrow> string \<Rightarrow> string list" where
  "addDeclared gs name =
     (let gs1 = (if name \<in> set COMMON_GUARDS then set_add gs name else gs)
      in if guardPrefix name then set_add gs1 name else gs1)"

text \<open>
  The call of \<open>parseTs\<close> is inside a \<open>try\<close> whose \<open>catch\<close> is empty and its result is not
  used: it has no part in the result.
\<close>

definition discoverAuthGuardsFromCode :: "string \<Rightarrow> string list" where
  "discoverAuthGuardsFromCode code =
     (let g1 = foldl addDeclared [] (execAll matchExportFunction 0 code);
          g2 = foldl addDeclared g1 (execAll matchExportConst 0 code)
      in foldl (\<lambda>gs g. if includes_str code g then set_add gs g else gs) g2 COMMON_GUARDS)"

text \<open>\<open>toPosix\<close> of \<open>utils/path.ts\<close> is a parameter of the functions that call it.\<close>

definition shouldScanFileForGuards :: "(string \<Rightarrow> string) \<Rightarrow> string \<Rightarrow> bool" where
  "shouldScanFileForGuards toPosix relPath =
     (let p = toPosix relPath in
      includes_str p ''/api/'' \<or> includes_str p ''/auth'' \<or> endsWith p ''.ts'' \<or>
      endsWith p ''.tsx'' \<or> endsWith p ''.js'' \<or> endsWith p ''.jsx'')"

text \<open>\<open>code.split("\n")\<close>\<close>

fun split_nl :: "string \<Rightarrow> string list" where
  "split_nl [] = [[]]"
| "split_nl (c # cs) =
     (if c = CHR 0x0A then [] # split_nl cs
      else (case split_nl cs of l # ls \<Rightarrow> (c # l) # ls | [] \<Rightarrow> [[c]]))"

text \<open>
  \<open>line.match(/marker\s+(\S+)/)\<close>: the token of the leftmost match in the line, if any.
\<close>

definition hintHere :: "string \<Rightarrow> string \<Rightarrow> string option" where
  "hintHere marker s =
     (case literal marker s of None \<Rightarrow> None | Some s1 \<Rightarrow>
      case spaces1 s1 of None \<Rightarrow> None | Some s2 \<Rightarrow>
      let tok = takeWhile (\<lambda>c. \<not> isSpace c) s2 in if tok = [] then None else Some tok)"

fun hintIn :: "string \<Rightarrow> string \<Rightarrow> string option" where
  "hintIn marker [] = hintHere marker []"
| "hintIn marker (c # cs) =
     (case hintHere marker (c # cs) of Some tok \<Rightarrow> Some tok | None \<Rightarrow> hintIn marker cs)"

record Hints =
  h_publicApiExact :: "string list"
  h_publicApiPrefix :: "string list"
  h_proxyApiPrefix :: "string list"

definition pushHint :: "string \<Rightarrow> string \<Rightarrow> string list \<Rightarrow> string list" where
  "pushHint marker ln acc =
     (case hintIn marker ln of None \<Rightarrow> acc | Some tok \<Rightarrow> acc @ [normalizeApiPath tok])"

definition hintsOfLine :: "Hints \<Rightarrow> string \<Rightarrow> Hints" where
  "hintsOfLine h ln =
     \<lparr>h_publicApiExact = pushHint ''vibecheck:public-api'' ln (h_publicApiExact h),
      h_publicApiPrefix = pushHint ''vibecheck:public-api-prefix'' ln (h_publicApiPrefix h),
      h_proxyApiPrefix = pushHint ''vibecheck:proxy-api-prefix'' ln (h_proxyApiPrefix h)\<rparr>"

definition discoverPublicApiHints :: "string \<Rightarrow> Hints" where
  "discoverPublicApiHints code =
     foldl hintsOfLine \<lparr>h_publicApiExact = [], h_publicApiPrefix = [], h_proxyApiPrefix = []\<rparr>
       (split_nl code)"

definition inferProxyPrefixesFromPath :: "string \<Rightarrow> string list" where
  "inferProxyPrefixesFromPath posixPath =
     map normalizeApiPath
       ((if includes_str posixPath ''/app/api/embed-proxy/'' then [''/api/embed-proxy''] else []) @
        (if includes_str posixPath ''/app/api/og/'' then [''/api/og''] else []) @
        (if includes_str posixPath ''/app/api/stripe/webhook/'' then [''/api/stripe/webhook''] else []) @
        (if includes_str posixPath ''/app/api/health/'' then [''/api/health''] else []) @
        (if includes_str posixPath ''/app/api/_debug/'' then [''/api/_debug''] else []))"

text \<open>\<open>Array.isArray(cfgAuth.x) ? cfgAuth.x : []\<close> on \<open>ctx.config.auth ?? {}\<close>\<close>

definition cfgArray :: "(AuthLists \<Rightarrow> string list option) \<Rightarrow> RuleContext \<Rightarrow> string list" where
  "cfgArray field ctx =
     (case auth (config ctx) of
        AuthObject a \<Rightarrow> (case field a of None \<Rightarrow> [] | Some xs \<Rightarrow> xs)
      | AuthKindValue k \<Rightarrow> []
      | AuthAbsent \<Rightarrow> [])"

definition mergeWithUserConfig :: "DiscoveredAuth \<Rightarrow> RuleContext \<Rightarrow> DiscoveredAuth" where
  "mergeWithUserConfig discovered ctx =
     \<lparr>guards = uniq (guards discovered @
                 filter (\<lambda>s. s \<noteq> []) (map trim (cfgArray cfg_guards ctx))),
      publicApiExact = uniq (publicApiExact discovered @
                 map normalizeApiPath (cfgArray cfg_publicApiExact ctx)),
      publicApiPrefix = uniq (publicApiPrefix discovered @
                 map normalizeApiPath (cfgArray cfg_publicApiPrefix ctx)),
      proxyApiPrefix = uniq (proxyApiPrefix discovered @
                 map normalizeApiPath (cfgArray cfg_proxyApiPrefix ctx))\<rparr>"

text \<open>
  The state of the loop of \<open>discoverAuthGuards\<close>: the set \<open>guards\<close> and the three arrays.
  The loop ends with the error of \<open>ctx.readFile\<close> when that promise is rejected.
\<close>

definition isCodePath :: "string \<Rightarrow> bool" where
  "isCodePath p = (endsWith p ''.ts'' \<or> endsWith p ''.tsx'' \<or> endsWith p ''.js'' \<or> endsWith p ''.jsx'')"

definition scanFile :: "DiscoveredAuth \<Rightarrow> string \<Rightarrow> string \<Rightarrow> DiscoveredAuth" where
  "scanFile acc p code =
     (let hints = discoverPublicApiHints code in
      \<lparr>guards = foldl set_add (guards acc) (discoverAuthGuardsFromCode code),
       publicApiExact = publicApiExact acc @ h_publicApiExact hints,
       publicApiPrefix = publicApiPrefix acc @ h_publicApiPrefix hints,
       proxyApiPrefix = proxyApiPrefix acc @ h_proxyApiPrefix hints @ inferProxyPrefixesFromPath p\<rparr>)"

text \<open>\<open>ctx.relPaths?.[i] ?? abs\<close>\<close>

definition relPathAt :: "RuleContext \<Rightarrow> nat \<Rightarrow> string \<Rightarrow> string" where
  "relPathAt ctx i absPath = (if i < length (relPaths ctx) then relPaths ctx ! i else absPath)"

fun discoverLoop ::
  "(string \<Rightarrow> string) \<Rightarrow> RuleContext \<Rightarrow> nat \<Rightarrow> string list \<Rightarrow> DiscoveredAuth
     \<Rightarrow> js_error + DiscoveredAuth" where
  "discoverLoop toPosix ctx i [] acc = Inr acc"
| "discoverLoop toPosix ctx i (absPath # rest) acc =
     (let rp = relPathAt ctx i absPath;
          p = toPosix rp
      in if \<not> isCodePath p then discoverLoop toPosix ctx (i + 1) rest acc
         else if \<not> shouldScanFileForGuards toPosix p then discoverLoop toPosix ctx (i + 1) rest acc
         else (case readFile ctx absPath of
                 Inl e \<Rightarrow> Inl e
               | Inr code \<Rightarrow>
                   if code = [] then discoverLoop toPosix ctx (i + 1) rest acc
                   else discoverLoop toPosix ctx (i + 1) rest (scanFile acc p code)))"

definition discoverAuthGuards :: "(string \<Rightarrow> string) \<Rightarrow> RuleContext \<Rightarrow> js_error + DiscoveredAuth" where
  "discoverAuthGuards toPosix ctx =
     (case discoverLoop toPosix ctx 0 (files ctx)
             \<lparr>guards = new_Set COMMON_GUARDS, publicApiExact = [], publicApiPrefix = [],
              proxyApiPrefix = []\<rparr> of
        Inl e \<Rightarrow> Inl e
      | Inr acc \<Rightarrow>
          Inr (mergeWithUserConfig
                 \<lparr>guards = uniq (guards acc),
                  publicApiExact = uniq (map normalizeApiPath (publicApiExact acc)),
                  publicApiPrefix = uniq (map normalizeApiPath (publicApiPrefix acc)),
                  proxyApiPrefix = uniq (map normalizeApiPath (proxyApiPrefix acc))\<rparr> ctx))"

section \<open>engine/runRules.ts\<close>

definition stash :: "RuleContext \<Rightarrow> Stash \<Rightarrow> RuleContext" where
  "stash ctx d = ctx\<lparr>config := (config ctx)\<lparr>discoveredAuth := Some d\<rparr>\<rparr>"

text \<open>
  The prepass with its \<open>try\<close> and \<open>catch\<close>: the findings pushed so far and the context with
  the stash written.
\<close>

definition prepass :: "(string \<Rightarrow> string) \<Rightarrow> RuleContext \<Rightarrow> Finding list \<times> RuleContext" where
  "prepass toPosix ctx =
     (case discoverAuthGuards toPosix ctx of
        Inr discovered \<Rightarrow> ([], stash ctx (Discovered discovered))
      | Inl e \<Rightarrow>
          ([\<lparr>ruleId = ''discover-auth-guards'', severity = info,
             message = ''Auth discovery failed: '' @ error_message e,
             file_path = rootDir ctx, line = None, col = None, fixHint = None\<rparr>],
           stash ctx EmptyObject))"

definition crashFinding :: "RuleContext \<Rightarrow> Rule \<Rightarrow> js_error \<Rightarrow> Finding" where
  "crashFinding ctx rule e =
     \<lparr>ruleId = rule_id rule, severity = info,
      message = ''Rule crashed: '' @ error_message e,
      file_path = rootDir ctx, line = None, col = None, fixHint = None\<rparr>"

text \<open>
  \<open>await rule.run(ctx).catch(...)\<close>: the call \<open>rule.run(ctx)\<close> is evaluated first and the
  handler is attached to the promise that it returns; the handler turns a rejection of
  that promise into one finding. When the call itself throws there is no promise to
  attach the handler to, and no \<open>try\<close> stands around the loop: the error leaves \<open>runRules\<close>,
  whose own promise is rejected with it (\<open>Inl\<close>).
\<close>

definition runCaught :: "RuleContext \<Rightarrow> Rule \<Rightarrow> js_error + Finding list" where
  "runCaught ctx rule =
     (case run rule ctx of
        Inl e \<Rightarrow> Inl e
      | Inr (Fulfilled findings) \<Rightarrow> Inr findings
      | Inr (Rejected e) \<Rightarrow> Inr [crashFinding ctx rule e])"

definition applies :: "RuleContext \<Rightarrow> Rule \<Rightarrow> bool" where
  "applies ctx rule = (auto \<in> set (rule_stack rule) \<or> repo_stack ctx \<in> set (rule_stack rule))"

fun ruleLoop :: "RuleContext \<Rightarrow> Rule list \<Rightarrow> Finding list \<Rightarrow> js_error + Finding list" where
  "ruleLoop ctx [] out = Inr out"
| "ruleLoop ctx (rule # rules) out =
     (if \<not> applies ctx rule then ruleLoop ctx rules out
      else (case runCaught ctx rule of
              Inl e \<Rightarrow> Inl e
            | Inr findings \<Rightarrow> ruleLoop ctx rules (out @ findings)))"

definition runRules :: "(string \<Rightarrow> string) \<Rightarrow> RuleContext \<Rightarrow> Rule list \<Rightarrow> js_error + Finding list" where
  "runRules toPosix ctx rules =
     (case prepass toPosix ctx of (out, ctx') \<Rightarrow> ruleLoop ctx' rules out)"

text \<open>
  A rule returns a promise on a context when its run does not throw before it returns.
  What such a rule contributes to the result of \<open>runRules\<close>: the findings of its promise,
  or the one finding made of its rejection.
\<close>

definition returnsPromise :: "RuleContext \<Rightarrow> Rule \<Rightarrow> bool" where
  "returnsPromise ctx rule = (case run rule ctx of Inl e \<Rightarrow> False | Inr p \<Rightarrow> True)"

definition ruleFindings :: "RuleContext \<Rightarrow> Rule \<Rightarrow> Finding list" where
  "ruleFindings ctx rule =
     (case run rule ctx of
        Inr (Fulfilled findings) \<Rightarrow> findings
      | Inr (Rejected e) \<Rightarrow> [crashFinding ctx rule e]
      | Inl e \<Rightarrow> [])"


section \<open>Vocabulary of the properties\<close>

text \<open>
  The vocabulary of the scanner properties. The depth of a text counts its opening braces
  minus its closing braces. A balanced block begins with an opening brace, ends with a
  closing brace and has depth 0, while every proper prefix of it that is not empty has a
  positive depth: its last character is where the depth first returns to zero.
\<close>

definition braceDelta :: "char \<Rightarrow> int" where
  "braceDelta c = (if c = CHR ''{'' then 1 else if c = CHR ''}'' then - 1 else 0)"

fun braceDepth :: "string \<Rightarrow> int" where
  "braceDepth [] = 0"
| "braceDepth (c # cs) = braceDelta c + braceDepth cs"

definition balancedBlock :: "string \<Rightarrow> bool" where
  "balancedBlock r = (r \<noteq> [] \<and> hd r = CHR ''{'' \<and> last r = CHR ''}'' \<and> braceDepth r = 0 \<and>
     list_all (\<lambda>n. 0 < braceDepth (take n r)) [1..<length r])"

text \<open>
  The depth loop on the rest of the text: the number of characters up to and including the
  one at which the depth, starting from \<open>d\<close>, first becomes zero.
\<close>

fun closeAt :: "string \<Rightarrow> int \<Rightarrow> nat option" where
  "closeAt [] d = None"
| "closeAt (c # cs) d =
     (if d + braceDelta c = 0 then Some 1 else map_option Suc (closeAt cs (d + braceDelta c)))"


text \<open>
  What the scanner skips: white space, line comments from \<open>//\<close> to the next line feed, and
  block comments from \<open>/*\<close> to the first \<open>*/\<close> after the opener.
\<close>

inductive trivia :: "string \<Rightarrow> bool" where
  trivia_Nil: "trivia []"
| trivia_space: "isSpace c \<Longrightarrow> trivia t \<Longrightarrow> trivia (c # t)"
| trivia_line: "CHR 0x0A \<notin> set body \<Longrightarrow> trivia t
     \<Longrightarrow> trivia (''//'' @ body @ [CHR 0x0A] @ t)"
| trivia_block: "indexOfFrom (body @ ''*/'') ''*/'' 0 = Some (length body) \<Longrightarrow> trivia t
     \<Longrightarrow> trivia (''/*'' @ body @ ''*/'' @ t)"


text \<open>
  The vocabulary of the baseline properties: the number of findings of a list that carry
  the signature \<open>S\<close>, and the count a baseline records for \<open>S\<close>, which is what
  \<open>allowed.get(S) ?? 0\<close> reads.
\<close>

definition getOr0 :: "(string, nat) jsmap \<Rightarrow> string \<Rightarrow> nat" where
  "getOr0 m k = (case map_get m k of None \<Rightarrow> 0 | Some c \<Rightarrow> c)"

definition occurrences :: "string \<Rightarrow> Finding list \<Rightarrow> nat" where
  "occurrences S fs = length (filter (\<lambda>g. keyOf g = S) fs)"

definition recorded :: "Baseline \<Rightarrow> string \<Rightarrow> nat" where
  "recorded b S = getOr0 (new_Map (items b)) S"

text \<open>
  The positions of a finding list that survive: those with at least as many earlier
  findings of the same signature as \<open>allowed\<close> grants.
\<close>

definition kept :: "(string, nat) jsmap \<Rightarrow> Finding list \<Rightarrow> nat list" where
  "kept allowed fs =
     filter (\<lambda>i. getOr0 allowed (keyOf (fs ! i)) \<le> occurrences (keyOf (fs ! i)) (take i fs))
       [0..<length fs]"

section \<open>Example contexts and rules\<close>

text \<open>Contexts and rules on which the properties are evaluated.\<close>

definition example_config :: CheckerConfig where
  "example_config =
     \<lparr>stack = auto, auth = AuthKindValue kind_auto, authGuards = [''myGuard''], ignore = [],
      maxFileBytes = 1000000, discoveredAuth = None\<rparr>"

definition example_ctx :: RuleContext where
  "example_ctx =
     \<lparr>rootDir = ''/r'', files = [''/r/src/a.ts''], relPaths = [''src/a.ts''],
      readFile = (\<lambda>p. Inr ''const x = 1;''), config = example_config, repo_stack = nextjs\<rparr>"

definition example_ctx_lists :: RuleContext where
  "example_ctx_lists =
     example_ctx\<lparr>files := [], relPaths := [],
       config := example_config\<lparr>auth := AuthObject
         \<lparr>cfg_guards = Some ['' checkUser ''], cfg_publicApiExact = Some [''api/health/''],
          cfg_publicApiPrefix = Some [''/api/embed''], cfg_proxyApiPrefix = Some [''/api/hook'']\<rparr>\<rparr>\<rparr>"

definition example_ctx_blank :: RuleContext where
  "example_ctx_blank =
     example_ctx\<lparr>files := [], relPaths := [],
       config := example_config\<lparr>auth := AuthObject
         \<lparr>cfg_guards = Some ['' ''], cfg_publicApiExact = Some [[]],
          cfg_publicApiPrefix = None, cfg_proxyApiPrefix = None\<rparr>\<rparr>\<rparr>"

definition example_finding :: Finding where
  "example_finding =
     \<lparr>ruleId = ''ok'', severity = high, message = ''m'', file_path = ''/r/src/a.ts'',
      line = Some 1, col = Some 0, fixHint = None\<rparr>"

definition example_rule_ok :: Rule where
  "example_rule_ok =
     \<lparr>rule_id = ''ok'', description = ''succeeds'', rule_stack = [nextjs, auto],
      run = (\<lambda>ctx. Inr (Fulfilled [example_finding]))\<rparr>"

text \<open>\<open>async run(ctx) { throw new Error("boom"); }\<close>: the promise is rejected.\<close>

definition example_rule_failing :: Rule where
  "example_rule_failing =
     \<lparr>rule_id = ''bad'', description = ''fails'', rule_stack = [auto],
      run = (\<lambda>ctx. Inr (Rejected (JsError ''boom'')))\<rparr>"

text \<open>\<open>run(ctx) { throw new Error("boom"); }\<close>, not \<open>async\<close>: the call throws.\<close>

definition example_rule_throwing :: Rule where
  "example_rule_throwing =
     \<lparr>rule_id = ''bad'', description = ''throws'', rule_stack = [auto],
      run = (\<lambda>ctx. Inl (JsError ''boom''))\<rparr>"

section \<open>Properties of the report\<close>

lemma foldl_bump_blocker:
  "n_blocker (foldl bump acc fs) = n_blocker acc + length (filter (\<lambda>f. severity f = blocker) fs)"
  by (induction fs arbitrary: acc) (auto simp: bump_def split: Severity.splits)

lemma foldl_bump_high:
  "n_high (foldl bump acc fs) = n_high acc + length (filter (\<lambda>f. severity f = high) fs)"
  by (induction fs arbitrary: acc) (auto simp: bump_def split: Severity.splits)

text \<open>
  C6. In strict mode the exit status is 2 when some finding is a blocker, else 1 when some
  finding is high, else 0, whatever the other findings are; without strict mode it is 0.
\<close>

theorem exitCode_contract:
  "exitCode fs strict =
     (if \<not> strict then 0
      else if blocker \<in> severity ` set fs then 2
      else if high \<in> severity ` set fs then 1
      else 0)"
  apply (simp add: exitCode_def summarize_def Let_def foldl_bump_blocker foldl_bump_high
      filter_empty_conv)
  by (auto simp: image_iff)

section \<open>Properties of the baseline\<close>

lemma getOr0_set: "getOr0 (map_set m k v) k' = (if k' = k then v else getOr0 m k')"
  by (simp add: getOr0_def map_get_def map_set_def update_conv')

lemma getOr0_empty: "getOr0 [] k = 0"
  by (simp add: getOr0_def map_get_def)

lemma countStep_get:
  "getOr0 (countStep m f) k = getOr0 m k + (if keyOf f = k then 1 else 0)"
  by (auto simp: countStep_def Let_def getOr0_set) (simp add: getOr0_def)

lemma foldl_countStep_get: "getOr0 (foldl countStep m fs) k = getOr0 m k + occurrences k fs"
  by (induction fs arbitrary: m) (auto simp: countStep_get occurrences_def)

lemma applyStep_alt:
  "applyStep allowed (seen, out) f =
     (if getOr0 seen (keyOf f) < getOr0 allowed (keyOf f)
      then (map_set seen (keyOf f) (getOr0 seen (keyOf f) + 1), out)
      else (seen, out @ [f]))"
  by (simp add: applyStep_def Let_def getOr0_def)

lemma kept_snoc:
  "kept allowed (fs @ [f]) =
     kept allowed fs @
       (if getOr0 allowed (keyOf f) \<le> occurrences (keyOf f) fs then [length fs] else [])"
proof -
  have "filter (\<lambda>i. getOr0 allowed (keyOf ((fs @ [f]) ! i))
                    \<le> occurrences (keyOf ((fs @ [f]) ! i)) (take i (fs @ [f]))) [0..<length fs]
      = filter (\<lambda>i. getOr0 allowed (keyOf (fs ! i))
                    \<le> occurrences (keyOf (fs ! i)) (take i fs)) [0..<length fs]"
    by (rule filter_cong) (auto simp: nth_append)
  then show ?thesis by (simp add: kept_def)
qed

lemma map_nth_kept_snoc:
  "map ((!) (fs @ [f])) (kept allowed fs) = map ((!) fs) (kept allowed fs)"
  by (rule map_cong) (auto simp: kept_def nth_append)

text \<open>
  The invariant of the loop of \<open>applyBaseline\<close>, by induction on the findings consumed so
  far: \<open>seen\<close> holds for every signature the number suppressed, and \<open>out\<close> the survivors.
\<close>

lemma apply_invariant:
  "foldl (applyStep allowed) ([], []) fs = (seen, out) \<Longrightarrow>
     (\<forall>k. getOr0 seen k = min (occurrences k fs) (getOr0 allowed k)) \<and>
     out = map ((!) fs) (kept allowed fs)"
proof (induction fs arbitrary: seen out rule: rev_induct)
  case Nil
  then show ?case by (auto simp: getOr0_empty occurrences_def kept_def)
next
  case (snoc f fs)
  obtain seen0 out0 where st: "foldl (applyStep allowed) ([], []) fs = (seen0, out0)"
    by (cases "foldl (applyStep allowed) ([], []) fs")
  from snoc.IH[OF st]
  have seen0: "\<And>k. getOr0 seen0 k = min (occurrences k fs) (getOr0 allowed k)"
    and out0: "out0 = map ((!) fs) (kept allowed fs)" by auto
  from snoc.prems st have step: "applyStep allowed (seen0, out0) f = (seen, out)" by simp
  show ?case
  proof (cases "occurrences (keyOf f) fs < getOr0 allowed (keyOf f)")
    case True
    then have lt: "getOr0 seen0 (keyOf f) < getOr0 allowed (keyOf f)" by (simp add: seen0)
    with step have s: "seen = map_set seen0 (keyOf f) (getOr0 seen0 (keyOf f) + 1)"
      and o: "out = out0"
      by (auto simp: applyStep_alt)
    have "\<And>k. getOr0 seen k = min (occurrences k (fs @ [f])) (getOr0 allowed k)"
      using True by (auto simp: s getOr0_set seen0 occurrences_def)
    moreover have "out = map ((!) (fs @ [f])) (kept allowed (fs @ [f]))"
      using True by (simp add: o out0 kept_snoc map_nth_kept_snoc)
    ultimately show ?thesis by blast
  next
    case False
    then have ge: "\<not> getOr0 seen0 (keyOf f) < getOr0 allowed (keyOf f)" by (simp add: seen0)
    with step have s: "seen = seen0" and o: "out = out0 @ [f]"
      by (auto simp: applyStep_alt)
    have "\<And>k. getOr0 seen k = min (occurrences k (fs @ [f])) (getOr0 allowed k)"
      using False by (auto simp: s seen0 occurrences_def)
    moreover have "out = map ((!) (fs @ [f])) (kept allowed (fs @ [f]))"
      using False by (simp add: o out0 kept_snoc map_nth_kept_snoc)
    ultimately show ?thesis by blast
  qed
qed

lemma applyBaseline_kept:
  "applyBaseline fs b = map ((!) fs) (kept (new_Map (items b)) fs)"
proof -
  obtain seen out where st: "foldl (applyStep (new_Map (items b))) ([], []) fs = (seen, out)"
    by (cases "foldl (applyStep (new_Map (items b))) ([], []) fs")
  from apply_invariant[OF st] show ?thesis by (simp add: applyBaseline_def st)
qed

lemma occurrences_kept:
  "occurrences S (map ((!) fs) (kept allowed fs)) = occurrences S fs - getOr0 allowed S"
proof (induction fs rule: rev_induct)
  case Nil
  then show ?case by (simp add: kept_def occurrences_def)
next
  case (snoc f fs)
  have "occurrences S (map ((!) (fs @ [f])) (kept allowed (fs @ [f])))
      = occurrences S (map ((!) fs) (kept allowed fs))
        + (if getOr0 allowed (keyOf f) \<le> occurrences (keyOf f) fs \<and> keyOf f = S then 1 else 0)"
    by (auto simp: kept_snoc map_nth_kept_snoc occurrences_def)
  also have "\<dots> = occurrences S (fs @ [f]) - getOr0 allowed S"
  proof (cases "keyOf f = S")
    case True
    then show ?thesis using snoc by (auto simp: occurrences_def)
  next
    case False
    then show ?thesis using snoc by (auto simp: occurrences_def)
  qed
  finally show ?case .
qed

lemma foldl_set_map_of:
  "map_of (foldl (\<lambda>m (k, v). map_set m k v) m0 xs) k =
     (case map_of (rev xs) k of Some v \<Rightarrow> Some v | None \<Rightarrow> map_of m0 k)"
  by (induction xs arbitrary: m0)
    (auto simp: map_set_def update_conv' map_add_def split: option.splits)

lemma getOr0_new_Map:
  "getOr0 (new_Map xs) k = (case map_of (rev xs) k of Some v \<Rightarrow> v | None \<Rightarrow> 0)"
  by (simp add: getOr0_def map_get_def new_Map_def foldl_set_map_of split: option.splits)

lemma distinct_countStep:
  "distinct (map fst m) \<Longrightarrow> distinct (map fst (foldl countStep m fs))"
  by (induction fs arbitrary: m) (auto simp: countStep_def Let_def map_set_def distinct_update)

lemma map_of_rev_distinct:
  assumes d: "distinct (map fst xs)"
  shows "map_of (rev xs) k = map_of xs k"
proof -
  have d': "distinct (map fst (rev xs))" using d by (simp add: rev_map[symmetric])
  show ?thesis
  proof (cases "map_of xs k")
    case None
    then have "k \<notin> fst ` set xs" by (simp add: map_of_eq_None_iff)
    then have "map_of (rev xs) k = None" by (simp add: map_of_eq_None_iff)
    with None show ?thesis by simp
  next
    case (Some v)
    then have "(k, v) \<in> set (rev xs)" using d by (simp add: map_of_eq_Some_iff)
    then have "map_of (rev xs) k = Some v" using d' by (simp add: map_of_eq_Some_iff)
    with Some show ?thesis by simp
  qed
qed

text \<open>The baseline written from a list records, for every signature, its occurrences.\<close>

lemma recorded_writeBaseline: "getOr0 (new_Map (foldl countStep [] fs)) k = occurrences k fs"
proof -
  have d: "distinct (map fst (foldl countStep [] fs))" by (rule distinct_countStep) simp
  have "map_of (rev (foldl countStep [] fs)) k = map_of (foldl countStep [] fs) k"
    using d by (rule map_of_rev_distinct)
  then have "getOr0 (new_Map (foldl countStep [] fs)) k = getOr0 (foldl countStep [] fs) k"
    unfolding getOr0_new_Map by (simp add: getOr0_def map_get_def)
  then show ?thesis by (simp add: foldl_countStep_get getOr0_empty)
qed

lemma occurrences_take_less:
  assumes i: "i < length fs"
  shows "occurrences (keyOf (fs ! i)) (take i fs) < occurrences (keyOf (fs ! i)) fs"
proof -
  have "fs = take i fs @ fs ! i # drop (Suc i) fs" using i by (simp add: id_take_nth_drop)
  then have "occurrences (keyOf (fs ! i)) fs
      = occurrences (keyOf (fs ! i)) (take i fs @ fs ! i # drop (Suc i) fs)" by simp
  then show ?thesis by (simp add: occurrences_def)
qed

text \<open>
  C2. Baseline round trip: applying the baseline written from a finding list to that same
  list suppresses every finding.
\<close>

theorem baseline_roundtrip: "applyBaseline F (writeBaseline F) = []"
proof -
  have "kept (new_Map (foldl countStep [] F)) F = []"
    unfolding kept_def filter_empty_conv
  proof
    fix i assume "i \<in> set [0..<length F]"
    then have "i < length F" by simp
    then have "occurrences (keyOf (F ! i)) (take i F) < occurrences (keyOf (F ! i)) F"
      by (rule occurrences_take_less)
    then show "\<not> getOr0 (new_Map (foldl countStep [] F)) (keyOf (F ! i))
                 \<le> occurrences (keyOf (F ! i)) (take i F)"
      by (simp add: recorded_writeBaseline)
  qed
  then show ?thesis by (simp add: applyBaseline_kept writeBaseline_def)
qed

text \<open>
  C3. For every finding list, baseline and signature \<open>S\<close>, where a signature is what
  \<open>keyOf\<close> builds (rule id, severity, file, line, column and message joined by a bar):
  the output of \<open>applyBaseline\<close> is the input without the findings that have fewer earlier
  findings of their own signature than the baseline records for it, that is without the
  first occurrences up to the recorded count, in the order of the input; and the number of
  findings of signature \<open>S\<close> that are suppressed is the minimum of the occurrences of \<open>S\<close>
  and the count recorded for \<open>S\<close>, which is the count of the baseline's (last) item for
  \<open>S\<close> and 0 for a signature the baseline does not hold.
\<close>

theorem applyBaseline_suppresses_first:
  "applyBaseline fs b =
     map ((!) fs)
       (filter (\<lambda>i. recorded b (keyOf (fs ! i)) \<le> occurrences (keyOf (fs ! i)) (take i fs))
          [0..<length fs])
   \<and> occurrences S fs - occurrences S (applyBaseline fs b) = min (occurrences S fs) (recorded b S)
   \<and> occurrences S (applyBaseline fs b) = occurrences S fs - recorded b S
   \<and> recorded b S = (case map_of (rev (items b)) S of None \<Rightarrow> 0 | Some c \<Rightarrow> c)"
proof -
  have 1: "applyBaseline fs b = map ((!) fs) (kept (new_Map (items b)) fs)"
    by (rule applyBaseline_kept)
  have 2: "occurrences S (applyBaseline fs b) = occurrences S fs - recorded b S"
    by (simp add: 1 occurrences_kept recorded_def)
  have 3: "recorded b S = (case map_of (rev (items b)) S of None \<Rightarrow> 0 | Some c \<Rightarrow> c)"
    by (simp add: recorded_def getOr0_new_Map split: option.splits)
  from 1 2 3 show ?thesis by (auto simp: kept_def recorded_def)
qed

section \<open>Properties of the inline argument scanner\<close>

lemma braceDepth_append: "braceDepth (xs @ ys) = braceDepth xs + braceDepth ys"
  by (induction xs) auto

lemma depthLoop_closeAt:
  "fb \<le> j \<Longrightarrow> depthLoop s fb j d = map_option (\<lambda>n. slice s fb (j + n)) (closeAt (drop j s) d)"
proof (induction s fb j d rule: depthLoop.induct)
  case (1 s fb j d)
  show ?case
  proof (cases "j < length s")
    case False
    then show ?thesis by (subst depthLoop.simps) simp
  next
    case True
    then have dr: "drop j s = s ! j # drop (Suc j) s" by (simp add: Cons_nth_drop_Suc)
    have delta: "(if s ! j = CHR ''{'' then d + 1 else if s ! j = CHR ''}'' then d - 1 else d) = d + braceDelta (s ! j)"
      by (simp add: braceDelta_def)
    show ?thesis
    proof (cases "d + braceDelta (s ! j) = 0")
      case z: True
      then show ?thesis using True delta by (subst depthLoop.simps) (simp add: dr Let_def)
    next
      case nz: False
      have "depthLoop s fb j d = depthLoop s fb (j + 1) (d + braceDelta (s ! j))"
        using True nz delta by (subst depthLoop.simps) (simp add: Let_def)
      also have "\<dots> = map_option (\<lambda>n. slice s fb (j + 1 + n)) (closeAt (drop (j + 1) s) (d + braceDelta (s ! j)))"
        using "1.IH"[OF True refl refl] nz delta "1.prems" by simp
      finally show ?thesis using nz by (simp add: dr option.map_comp comp_def)
    qed
  qed
qed

lemma closeAt_sound:
  "closeAt u d = Some n \<Longrightarrow>
     0 < n \<and> n \<le> length u \<and> d + braceDepth (take n u) = 0 \<and>
     (\<forall>m. 0 < m \<and> m < n \<longrightarrow> d + braceDepth (take m u) \<noteq> 0)"
proof (induction u arbitrary: d n)
  case Nil
  then show ?case by simp
next
  case (Cons c cs)
  show ?case
  proof (cases "d + braceDelta c = 0")
    case True
    with Cons.prems have "n = 1" by simp
    with True show ?thesis by auto
  next
    case False
    with Cons.prems obtain n' where n': "closeAt cs (d + braceDelta c) = Some n'" and n: "n = Suc n'"
      by auto
    from Cons.IH[OF n'] have ih: "0 < n'" "n' \<le> length cs" "d + braceDelta c + braceDepth (take n' cs) = 0"
      "\<And>m. 0 < m \<Longrightarrow> m < n' \<Longrightarrow> d + braceDelta c + braceDepth (take m cs) \<noteq> 0" by auto
    have "\<And>m. 0 < m \<Longrightarrow> m < n \<Longrightarrow> d + braceDepth (take m (c # cs)) \<noteq> 0"
    proof -
      fix m assume m: "0 < m" "m < n"
      then obtain m' where m': "m = Suc m'" by (cases m) auto
      show "d + braceDepth (take m (c # cs)) \<noteq> 0"
      proof (cases "m' = 0")
        case True then show ?thesis using False m' by simp
      next
        case f: False
        then show ?thesis using ih(4)[of m'] m m' n by (simp add: add.assoc)
      qed
    qed
    then show ?thesis using ih n by (simp add: add.assoc)
  qed
qed

lemma closeAt_complete:
  "0 < n \<Longrightarrow> n \<le> length u \<Longrightarrow> d + braceDepth (take n u) = 0 \<Longrightarrow>
     (\<forall>m. 0 < m \<and> m < n \<longrightarrow> d + braceDepth (take m u) \<noteq> 0) \<Longrightarrow> closeAt u d = Some n"
proof (induction u arbitrary: d n)
  case Nil
  then show ?case by simp
next
  case (Cons c cs)
  obtain n' where n: "n = Suc n'" using Cons.prems(1) by (cases n) auto
  show ?case
  proof (cases "n' = 0")
    case True
    then show ?thesis using Cons.prems n by simp
  next
    case False
    have nz: "d + braceDelta c \<noteq> 0" using Cons.prems(4)[rule_format, of 1] False n by simp
    have "closeAt cs (d + braceDelta c) = Some n'"
    proof (rule Cons.IH)
      show "0 < n'" using False by simp
      show "n' \<le> length cs" using Cons.prems(2) n by simp
      show "d + braceDelta c + braceDepth (take n' cs) = 0" using Cons.prems(3) n by (simp add: add.assoc)
      show "\<forall>m. 0 < m \<and> m < n' \<longrightarrow> d + braceDelta c + braceDepth (take m cs) \<noteq> 0"
      proof (intro allI impI)
        fix m assume "0 < m \<and> m < n'"
        then show "d + braceDelta c + braceDepth (take m cs) \<noteq> 0"
          using Cons.prems(4)[rule_format, of "Suc m"] n by (simp add: add.assoc)
      qed
    qed
    then show ?thesis using nz n by simp
  qed
qed

lemma prefixes_positive:
  assumes hd: "r \<noteq> []" "hd r = CHR ''{''"
    and nz: "\<And>m. 0 < m \<Longrightarrow> m < n \<Longrightarrow> braceDepth (take m r) \<noteq> 0"
    and n: "n \<le> length r"
  shows "0 < m \<Longrightarrow> m < n \<Longrightarrow> 0 < braceDepth (take m r)"
proof (induction m)
  case 0
  then show ?case by simp
next
  case (Suc m)
  show ?case
  proof (cases "m = 0")
    case True
    then show ?thesis using hd by (cases r) (auto simp: braceDelta_def)
  next
    case False
    then have ih: "0 < braceDepth (take m r)" using Suc by simp
    have lt: "m < length r" using Suc.prems n by simp
    have "take (Suc m) r = take m r @ [r ! m]" using lt by (simp add: take_Suc_conv_app_nth)
    then have "braceDepth (take (Suc m) r) = braceDepth (take m r) + braceDelta (r ! m)"
      by (simp add: braceDepth_append)
    moreover have "- 1 \<le> braceDelta (r ! m)" by (simp add: braceDelta_def)
    moreover have "braceDepth (take (Suc m) r) \<noteq> 0" using nz[of "Suc m"] Suc.prems by simp
    ultimately show ?thesis using ih by linarith
  qed
qed

lemma startsWith_Nil [simp]: "startsWith s []"
  by (simp add: startsWith_def)

lemma startsWith_append_self [simp]: "startsWith (p @ x) p"
  by (simp add: startsWith_def)

lemma startsWith_append_long: "length p \<le> length a \<Longrightarrow> startsWith (a @ x) p = startsWith a p"
  by (simp add: startsWith_def)

lemma startsWith_self [simp]: "startsWith p p"
  by (simp add: startsWith_def)

lemma startsWith_length: "startsWith s p \<Longrightarrow> length p \<le> length s"
proof -
  assume "startsWith s p"
  then have "length (take (length p) s) = length p" by (simp add: startsWith_def)
  then show ?thesis by simp
qed

lemma startsWith_decomp: "startsWith s p \<Longrightarrow> s = p @ drop (length p) s"
  by (metis append_take_drop_id startsWith_def)

lemma indexOfFrom_shift: "indexOfFrom s p k = map_option (\<lambda>n. n + k) (indexOfFrom s p 0)"
proof (induction s arbitrary: k)
  case Nil
  then show ?case by simp
next
  case (Cons c cs)
  have "indexOfFrom cs p (Suc k) = map_option (\<lambda>n. n + Suc k) (indexOfFrom cs p 0)" by (rule Cons.IH)
  moreover have "indexOfFrom cs p (Suc 0) = map_option (\<lambda>n. n + Suc 0) (indexOfFrom cs p 0)" by (rule Cons.IH)
  ultimately show ?case by (simp add: option.map_comp comp_def)
qed

lemma indexOfFrom_iff:
  "indexOfFrom s p 0 = Some n \<longleftrightarrow>
     n \<le> length s \<and> startsWith (drop n s) p \<and> (\<forall>m<n. \<not> startsWith (drop m s) p)"
proof (induction s arbitrary: n)
  case Nil
  then show ?case by (auto simp: startsWith_def)
next
  case (Cons c cs)
  show ?case
  proof (cases "startsWith (c # cs) p")
    case True
    have "(n \<le> length (c # cs) \<and> startsWith (drop n (c # cs)) p \<and> (\<forall>m<n. \<not> startsWith (drop m (c # cs)) p)) \<longleftrightarrow> n = 0"
    proof
      assume a: "n \<le> length (c # cs) \<and> startsWith (drop n (c # cs)) p \<and> (\<forall>m<n. \<not> startsWith (drop m (c # cs)) p)"
      show "n = 0"
      proof (rule ccontr)
        assume "n \<noteq> 0"
        then have "0 < n" by simp
        with a have "\<not> startsWith (drop 0 (c # cs)) p" by blast
        with True show False by simp
      qed
    next
      assume "n = 0" then show "n \<le> length (c # cs) \<and> startsWith (drop n (c # cs)) p \<and> (\<forall>m<n. \<not> startsWith (drop m (c # cs)) p)"
        using True by simp
    qed
    then show ?thesis using True by auto
  next
    case False
    have "indexOfFrom (c # cs) p 0 = map_option Suc (indexOfFrom cs p 0)"
      using False indexOfFrom_shift[of cs p "Suc 0"] by simp
    then have l: "indexOfFrom (c # cs) p 0 = Some n \<longleftrightarrow> (\<exists>n'. n = Suc n' \<and> indexOfFrom cs p 0 = Some n')"
      by auto
    have r: "(n \<le> length (c # cs) \<and> startsWith (drop n (c # cs)) p \<and> (\<forall>m<n. \<not> startsWith (drop m (c # cs)) p))
       \<longleftrightarrow> (\<exists>n'. n = Suc n' \<and> n' \<le> length cs \<and> startsWith (drop n' cs) p \<and> (\<forall>m<n'. \<not> startsWith (drop m cs) p))"
    proof (cases n)
      case 0
      then show ?thesis using False by simp
    next
      case (Suc n')
      have "(\<forall>m<Suc n'. \<not> startsWith (drop m (c # cs)) p) \<longleftrightarrow> (\<forall>m<n'. \<not> startsWith (drop m cs) p)"
      proof
        assume a: "\<forall>m<Suc n'. \<not> startsWith (drop m (c # cs)) p"
        show "\<forall>m<n'. \<not> startsWith (drop m cs) p"
        proof (intro allI impI)
          fix m assume "m < n'"
          then have "\<not> startsWith (drop (Suc m) (c # cs)) p" using a by auto
          then show "\<not> startsWith (drop m cs) p" by simp
        qed
      next
        assume a: "\<forall>m<n'. \<not> startsWith (drop m cs) p"
        show "\<forall>m<Suc n'. \<not> startsWith (drop m (c # cs)) p"
        proof (intro allI impI)
          fix m assume m: "m < Suc n'"
          show "\<not> startsWith (drop m (c # cs)) p"
          proof (cases m)
            case 0 then show ?thesis using False by simp
          next
            case (Suc m') then show ?thesis using a m by simp
          qed
        qed
      qed
      then show ?thesis using Suc by simp
    qed
    show ?thesis using l r Cons.IH by auto
  qed
qed

lemma indexOfFrom_extend:
  assumes "indexOfFrom (b @ p) p 0 = Some (length b)"
  shows "indexOfFrom (b @ p @ x) p k = Some (length b + k)"
proof -
  have nm: "\<And>m. m < length b \<Longrightarrow> \<not> startsWith (drop m (b @ p)) p"
    using assms by (simp add: indexOfFrom_iff)
  have "\<And>m. m < length b \<Longrightarrow> \<not> startsWith (drop m (b @ p @ x)) p"
  proof -
    fix m assume m: "m < length b"
    have "drop m (b @ p @ x) = drop m (b @ p) @ x" using m by simp
    moreover have "length p \<le> length (drop m (b @ p))" using m by simp
    ultimately show "\<not> startsWith (drop m (b @ p @ x)) p"
      using nm[OF m] startsWith_append_long[of p "drop m (b @ p)" x] by simp
  qed
  then have "indexOfFrom (b @ p @ x) p 0 = Some (length b)"
    by (simp add: indexOfFrom_iff)
  then show ?thesis by (subst indexOfFrom_shift) simp
qed

lemma indexOfFrom_first:
  assumes "indexOfFrom a p 0 = Some n"
  shows "take (length p) (drop n a) = p" and "indexOfFrom (take n a @ p) p 0 = Some n"
    and "n + length p \<le> length a"
proof -
  from assms have n: "n \<le> length a" and sw: "startsWith (drop n a) p"
    and nm: "\<And>m. m < n \<Longrightarrow> \<not> startsWith (drop m a) p"
    by (auto simp: indexOfFrom_iff)
  show 1: "take (length p) (drop n a) = p" using sw by (simp add: startsWith_def)
  show 3: "n + length p \<le> length a" using startsWith_length[OF sw] n by simp
  have eq: "take n a @ p = take (n + length p) a"
    using 1 by (metis take_add)
  have "\<And>m. m < n \<Longrightarrow> \<not> startsWith (drop m (take n a @ p)) p"
  proof -
    fix m assume m: "m < n"
    have "take (length p) (drop m (take (n + length p) a)) = take (length p) (drop m a)"
      using m by (simp add: drop_take min_def)
    then show "\<not> startsWith (drop m (take n a @ p)) p"
      using nm[OF m] by (simp add: eq startsWith_def)
  qed
  then show "indexOfFrom (take n a @ p) p 0 = Some n"
    using n by (simp add: indexOfFrom_iff)
qed

lemma indexOfFrom_single:
  "indexOfFrom (b @ [c]) [c] 0 = Some (length b) \<longleftrightarrow> c \<notin> set b"
proof (induction b)
  case Nil
  then show ?case by (simp add: startsWith_def)
next
  case (Cons x b)
  have sw: "startsWith (x # b @ [c]) [c] = (x = c)" by (simp add: startsWith_def)
  have "indexOfFrom (b @ [c]) [c] (Suc 0) = map_option (\<lambda>n. n + Suc 0) (indexOfFrom (b @ [c]) [c] 0)"
    by (rule indexOfFrom_shift)
  then show ?case using Cons.IH sw by auto
qed

lemma slice_split: "i \<le> k \<Longrightarrow> k \<le> j \<Longrightarrow> slice s i j = slice s i k @ slice s k j"
proof -
  assume a: "i \<le> k" "k \<le> j"
  then have "j - i = (k - i) + (j - k)" by simp
  then have "take (j - i) (drop i s) = take (k - i) (drop i s) @ take (j - k) (drop (k - i) (drop i s))"
    by (simp only: take_add)
  then show ?thesis using a by (simp add: slice_def)
qed

lemma slice_self [simp]: "slice s i i = []"
  by (simp add: slice_def)

lemma slice_one: "i < length s \<Longrightarrow> slice s i (Suc i) = [s ! i]"
  by (simp add: slice_def take_Suc_conv_app_nth Cons_nth_drop_Suc[symmetric] )

lemma indexOf_Some:
  assumes "indexOf s p k = Some n" and k: "k \<le> length s"
  shows "k \<le> n" and "n + length p \<le> length s" and "slice s n (n + length p) = p"
    and "indexOfFrom (slice s k n @ p) p 0 = Some (n - k)"
proof -
  from assms have "map_option (\<lambda>n. n + k) (indexOfFrom (drop k s) p 0) = Some n"
    by (subst indexOfFrom_shift[symmetric]) (simp add: indexOf_def min_def)
  then obtain n' where n': "indexOfFrom (drop k s) p 0 = Some n'" and n: "n = n' + k" by auto
  show "k \<le> n" using n by simp
  from indexOfFrom_first[OF n'] have 1: "take (length p) (drop n' (drop k s)) = p"
    and 2: "indexOfFrom (take n' (drop k s) @ p) p 0 = Some n'" and 3: "n' + length p \<le> length (drop k s)" by auto
  show "n + length p \<le> length s" using 3 n k by simp
  show "slice s n (n + length p) = p" using 1 n by (simp add: slice_def add.commute)
  show "indexOfFrom (slice s k n @ p) p 0 = Some (n - k)" using 2 n by (simp add: slice_def)
qed

lemma not_space_slash: "\<not> isSpace CHR ''/''" by (simp add: isSpace_def)
lemma not_space_brace: "\<not> isSpace CHR ''{''" by (simp add: isSpace_def)

lemma slice_two: "Suc i < length s \<Longrightarrow> slice s i (i + 2) = [s ! i, s ! Suc i]"
proof -
  assume a: "Suc i < length s"
  have "slice s i (i + 2) = slice s i (Suc i) @ slice s (Suc i) (Suc (Suc i))"
    using slice_split[of i "Suc i" "i + 2" s] by simp
  then show ?thesis using a by (simp add: slice_one)
qed

lemma skip_comment_slice:
  assumes i: "Suc i < length s" and o: "s ! i = a" "s ! Suc i = b"
    and idx: "indexOf s cl (i + 2) = Some e" and j: "e + length cl \<le> j"
  shows "slice s i j = [a, b] @ slice s (i + 2) e @ cl @ slice s (e + length cl) j"
    and "indexOfFrom (slice s (i + 2) e @ cl) cl 0 = Some (length (slice s (i + 2) e))"
proof -
  have k: "i + 2 \<le> length s" using i by simp
  note f = indexOf_Some[OF idx k]
  have "slice s i j = slice s i (i + 2) @ slice s (i + 2) j"
    using f(1) j by (intro slice_split) auto
  also have "slice s (i + 2) j = slice s (i + 2) e @ slice s e j"
    using f(1) j by (intro slice_split) auto
  also have "slice s e j = slice s e (e + length cl) @ slice s (e + length cl) j"
    using j by (intro slice_split) auto
  finally show "slice s i j = [a, b] @ slice s (i + 2) e @ cl @ slice s (e + length cl) j"
    using f(3) slice_two[OF i] o by simp
  have "length (slice s (i + 2) e) = e - (i + 2)"
    using f(1) f(2) by (simp add: slice_def)
  then show "indexOfFrom (slice s (i + 2) e @ cl) cl 0 = Some (length (slice s (i + 2) e))"
    using f(4) by simp
qed

lemma skipLoop_sound:
  "skipLoop s i = Some j \<Longrightarrow> i \<le> j \<and> trivia (slice s i j)"
proof (induction s i arbitrary: j rule: skipLoop.induct)
  case (1 s i)
  show ?case
  proof (cases "i < length s")
    case False
    then have "j = i" using "1.prems" by (subst (asm) skipLoop.simps) simp
    then show ?thesis by (simp add: trivia_Nil)
  next
    case lt: True
    show ?thesis
    proof (cases "isSpace (s ! i)")
      case True
      then have r: "skipLoop s (i + 1) = Some j" using "1.prems" lt by (subst (asm) skipLoop.simps) simp
      from "1.IH"(1)[OF lt refl True r] have ih: "i + 1 \<le> j" "trivia (slice s (i + 1) j)" by auto
      have "slice s i j = slice s i (Suc i) @ slice s (Suc i) j" using ih(1) by (intro slice_split) auto
      then have "slice s i j = s ! i # slice s (i + 1) j" using lt by (simp add: slice_one)
      then show ?thesis using ih True by (simp add: trivia_space)
    next
      case ns: False
      show ?thesis
      proof (cases "s ! i = CHR ''/'' \<and> charAt s (i + 1) = Some CHR ''/''")
        case lc: True
        then have i1: "Suc i < length s" and c1: "s ! Suc i = CHR ''/''"
          by (auto simp: charAt_def split: if_splits)
        from "1.prems" lt ns lc obtain nl where nl: "indexOf s [CHR 0x0A] (i + 2) = Some nl"
          and r: "skipLoop s (nl + 1) = Some j"
          by (subst (asm) skipLoop.simps) (auto split: option.splits)
        from "1.IH"(2)[OF lt refl ns lc nl r] have ih: "nl + 1 \<le> j" "trivia (slice s (nl + 1) j)" by auto
        have k: "i + 2 \<le> length s" using i1 by simp
        have "i < j" using indexOf_Some(1)[OF nl k] ih(1) by simp
        moreover have "trivia (slice s i j)"
          using skip_comment_slice[OF i1 _ c1 nl, of "CHR ''/''" j] lc ih
          by (simp add: trivia_line[simplified] indexOfFrom_single)
        ultimately show ?thesis by simp
      next
        case nlc: False
        show ?thesis
        proof (cases "s ! i = CHR ''/'' \<and> charAt s (i + 1) = Some CHR ''*''")
          case bc: True
          then have i1: "Suc i < length s" and c1: "s ! Suc i = CHR ''*''"
            by (auto simp: charAt_def split: if_splits)
          from "1.prems" lt ns nlc bc obtain e where e: "indexOf s ''*/'' (i + 2) = Some e"
            and r: "skipLoop s (e + 2) = Some j"
            by (subst (asm) skipLoop.simps) (auto split: option.splits)
          from "1.IH"(3)[OF lt refl ns nlc bc e r] have ih: "e + 2 \<le> j" "trivia (slice s (e + 2) j)" by auto
          have k: "i + 2 \<le> length s" using i1 by simp
          have "i < j" using indexOf_Some(1)[OF e k] ih(1) by simp
          moreover have "trivia (slice s i j)"
            using skip_comment_slice[OF i1 _ c1 e, of "CHR ''/''" j] bc ih
            by (simp add: trivia_block[simplified])
          ultimately show ?thesis by simp
        next
          case nbc: False
          then have "j = i" using "1.prems" lt ns nlc
            by (subst (asm) skipLoop.simps) (auto simp: Let_def split: if_splits)
          then show ?thesis by (simp add: trivia_Nil)
        qed
      qed
    qed
  qed
qed

lemma indexOf_append:
  "indexOfFrom (b @ p) p 0 = Some (length b) \<Longrightarrow>
     indexOf (q @ b @ p @ x) p (length q) = Some (length q + length b)"
  using indexOfFrom_extend[of b p x "length q"] by (simp add: indexOf_def add.commute)

lemma skipLoop_complete:
  "trivia t \<Longrightarrow> skipLoop (p @ t @ CHR ''{'' # x) (length p) = Some (length p + length t)"
proof (induction t arbitrary: p rule: trivia.induct)
  case trivia_Nil
  show ?case by (subst skipLoop.simps) (simp add: Let_def not_space_brace)
next
  case (trivia_space c t)
  have "skipLoop ((p @ [c]) @ t @ CHR ''{'' # x) (length (p @ [c])) = Some (length (p @ [c]) + length t)"
    by (rule trivia_space.IH)
  then show ?case using trivia_space.hyps(1) by (subst skipLoop.simps) (simp add: Let_def)
next
  case (trivia_line body t)
  define s where "s = p @ (''//'' @ body @ [CHR 0x0A] @ t) @ CHR ''{'' # x"
  have idx: "indexOf s [CHR 0x0A] (length p + 2) = Some (length p + 2 + length body)"
    using indexOf_append[OF iffD2[OF indexOfFrom_single trivia_line.hyps(1)], of "p @ ''//''" "t @ CHR ''{'' # x"]
    by (simp add: s_def)
  have "skipLoop ((p @ ''//'' @ body @ [CHR 0x0A]) @ t @ CHR ''{'' # x) (length (p @ ''//'' @ body @ [CHR 0x0A]))
      = Some (length (p @ ''//'' @ body @ [CHR 0x0A]) + length t)"
    by (rule trivia_line.IH)
  then have ih: "skipLoop s (length p + 2 + length body + 1) = Some (length p + length (''//'' @ body @ [CHR 0x0A] @ t))"
    by (simp add: s_def add.assoc)
  have f: "length p < length s" "s ! length p = CHR ''/''" "charAt s (length p + 1) = Some CHR ''/''"
    by (simp_all add: s_def charAt_def nth_append)
  have "skipLoop s (length p) = Some (length p + length (''//'' @ body @ [CHR 0x0A] @ t))"
    by (subst skipLoop.simps) (simp only: f idx ih Let_def not_space_slash if_True if_False option.case simp_thms)
  then show ?case by (simp only: s_def)
next
  case (trivia_block body t)
  define s where "s = p @ (''/*'' @ body @ ''*/'' @ t) @ CHR ''{'' # x"
  have idx: "indexOf s ''*/'' (length p + 2) = Some (length p + 2 + length body)"
    using indexOf_append[OF trivia_block.hyps(1), of "p @ ''/*''" "t @ CHR ''{'' # x"]
    by (simp add: s_def)
  have "skipLoop ((p @ ''/*'' @ body @ ''*/'') @ t @ CHR ''{'' # x) (length (p @ ''/*'' @ body @ ''*/''))
      = Some (length (p @ ''/*'' @ body @ ''*/'') + length t)"
    by (rule trivia_block.IH)
  then have ih: "skipLoop s (length p + 2 + length body + 2) = Some (length p + length (''/*'' @ body @ ''*/'' @ t))"
    by (simp add: s_def add.assoc)
  have f: "length p < length s" "s ! length p = CHR ''/''" "charAt s (length p + 1) = Some CHR ''*''"
    by (simp_all add: s_def charAt_def nth_append)
  have g: "(Some CHR ''*'' = Some CHR ''/'') = False" by simp
  have "skipLoop s (length p) = Some (length p + length (''/*'' @ body @ ''*/'' @ t))"
    by (subst skipLoop.simps) (simp only: f g idx ih Let_def not_space_slash if_True if_False option.case simp_thms)
  then show ?case by (simp only: s_def)
qed

lemma slice_take_drop: "slice s i (i + n) = take n (drop i s)"
  by (simp add: slice_def)

lemma balanced_of_close:
  assumes u: "u \<noteq> []" "hd u = CHR ''{''" and c: "closeAt u 0 = Some n"
  shows "balancedBlock (take n u)"
proof -
  from closeAt_sound[OF c] have n: "0 < n" "n \<le> length u" and z: "braceDepth (take n u) = 0"
    and nz: "\<And>m. 0 < m \<Longrightarrow> m < n \<Longrightarrow> braceDepth (take m u) \<noteq> 0" by auto
  let ?r = "take n u"
  have ne: "?r \<noteq> []" using n u by (cases u) auto
  have hd: "hd ?r = CHR ''{''" using n u by (cases u) auto
  have len: "length ?r = n" using n by simp
  have pos: "\<And>m. 0 < m \<Longrightarrow> m < n \<Longrightarrow> 0 < braceDepth (take m ?r)"
  proof -
    fix m assume m: "0 < m" "m < n"
    have "\<And>k. 0 < k \<Longrightarrow> k < n \<Longrightarrow> braceDepth (take k ?r) \<noteq> 0"
      using nz by (simp add: min_def)
    then show "0 < braceDepth (take m ?r)"
      using prefixes_positive[OF ne hd, of n m] m len by simp
  qed
  have n2: "1 < n"
  proof (rule ccontr)
    assume "\<not> 1 < n"
    then have "n = 1" using n by simp
    then have "?r = [CHR ''{'']" using u by (cases u) auto
    then show False using z by (simp add: braceDelta_def)
  qed
  have "?r = take (n - 1) ?r @ [last ?r]"
    using ne len by (metis append_butlast_last_id butlast_conv_take)
  then have "braceDepth ?r = braceDepth (take (n - 1) ?r) + braceDelta (last ?r)"
    by (metis braceDepth_append braceDepth.simps add.right_neutral)
  moreover have "0 < braceDepth (take (n - 1) ?r)" using pos[of "n - 1"] n2 by simp
  ultimately have "braceDelta (last ?r) < 0" using z by simp
  then have last: "last ?r = CHR ''}''" by (simp add: braceDelta_def split: if_splits)
  show ?thesis
    unfolding balancedBlock_def using ne hd last z pos len by (auto simp: list_all_iff)
qed

lemma close_of_balanced:
  assumes "balancedBlock r"
  shows "closeAt (r @ post) 0 = Some (length r)"
proof (rule closeAt_complete)
  from assms have ne: "r \<noteq> []" and z: "braceDepth r = 0"
    and pos: "\<And>m. 0 < m \<Longrightarrow> m < length r \<Longrightarrow> 0 < braceDepth (take m r)"
    by (auto simp: balancedBlock_def list_all_iff)
  show "0 < length r" using ne by simp
  show "length r \<le> length (r @ post)" by simp
  show "0 + braceDepth (take (length r) (r @ post)) = 0" using z by simp
  show "\<forall>m. 0 < m \<and> m < length r \<longrightarrow> 0 + braceDepth (take m (r @ post)) \<noteq> 0"
  proof (intro allI impI)
    fix m assume m: "0 < m \<and> m < length r"
    then have "0 < braceDepth (take m r)" using pos by blast
    then show "0 + braceDepth (take m (r @ post)) \<noteq> 0" using m by simp
  qed
qed

lemma extract_parts:
  "extractInlineFirstArgObject s = Some r \<longleftrightarrow>
     (\<exists>op i. indexOf s ''('' 0 = Some op \<and> skipLoop s (op + 1) = Some i \<and> i < length s \<and>
        s ! i = CHR ''{'' \<and> depthLoop s i i 0 = Some r)"
proof (cases "indexOf s ''('' 0")
  case None
  then show ?thesis by (simp add: extractInlineFirstArgObject_def)
next
  case op: (Some op)
  show ?thesis
  proof (cases "skipLoop s (op + 1)")
    case None
    then show ?thesis using op by (simp add: extractInlineFirstArgObject_def)
  next
    case i: (Some i)
    show ?thesis
    proof (cases "i < length s \<and> s ! i = CHR ''{''")
      case True
      then show ?thesis using op i by (simp add: extractInlineFirstArgObject_def charAt_def)
    next
      case False
      then have "charAt s i \<noteq> Some CHR ''{''" by (auto simp: charAt_def)
      then have "extractInlineFirstArgObject s = None"
        using op i by (simp add: extractInlineFirstArgObject_def)
      then show ?thesis using False op i by auto
    qed
  qed
qed

lemma extract_decomp:
  assumes "extractInlineFirstArgObject s = Some r"
  shows "\<exists>pre t post. s = pre @ ''('' @ t @ r @ post \<and> CHR ''('' \<notin> set pre \<and> trivia t \<and> balancedBlock r"
proof -
  from assms obtain op i where op: "indexOf s ''('' 0 = Some op" and sk: "skipLoop s (op + 1) = Some i"
    and i: "i < length s" and b: "s ! i = CHR ''{''" and d: "depthLoop s i i 0 = Some r"
    by (auto simp: extract_parts)
  from indexOf_Some[OF op] have o1: "op + 1 \<le> length s" and o2: "slice s op (op + 1) = ''(''"
    and o3: "indexOfFrom (slice s 0 op @ ''('') ''('' 0 = Some op" by auto
  have lpre: "length (slice s 0 op) = op" using o1 by (simp add: slice_def)
  have pre: "CHR ''('' \<notin> set (slice s 0 op)"
    using o3 indexOfFrom_single[of "slice s 0 op" "CHR ''(''"] lpre by simp
  from skipLoop_sound[OF sk] have t: "op + 1 \<le> i" "trivia (slice s (op + 1) i)" by auto
  from d obtain n where n: "closeAt (drop i s) 0 = Some n" and r: "r = slice s i (i + n)"
    by (auto simp: depthLoop_closeAt)
  have u: "drop i s \<noteq> []" "hd (drop i s) = CHR ''{''" using i b by (auto simp: hd_drop_conv_nth)
  have bal: "balancedBlock r" using balanced_of_close[OF u n] r by (simp add: slice_take_drop)
  from closeAt_sound[OF n] have nle: "i + n \<le> length s" using i by auto
  have "s = slice s 0 (length s)" by (simp add: slice_def)
  also have "\<dots> = slice s 0 op @ slice s op (length s)" using o1 by (intro slice_split) auto
  also have "slice s op (length s) = slice s op (op + 1) @ slice s (op + 1) (length s)"
    using o1 by (intro slice_split) auto
  also have "slice s (op + 1) (length s) = slice s (op + 1) i @ slice s i (length s)"
    using t(1) i by (intro slice_split) auto
  also have "slice s i (length s) = slice s i (i + n) @ slice s (i + n) (length s)"
    using nle by (intro slice_split) auto
  finally have "s = slice s 0 op @ ''('' @ slice s (op + 1) i @ r @ slice s (i + n) (length s)"
    using o2 r by simp
  then show ?thesis using pre t(2) bal by blast
qed

lemma extract_complete:
  assumes s: "s = pre @ ''('' @ t @ r @ post" and pre: "CHR ''('' \<notin> set pre"
    and t: "trivia t" and bal: "balancedBlock r"
  shows "extractInlineFirstArgObject s = Some r"
proof -
  from bal obtain r' where r: "r = CHR ''{'' # r'" by (cases r) (auto simp: balancedBlock_def)
  have op: "indexOf s ''('' 0 = Some (length pre)"
    using indexOf_append[OF iffD2[OF indexOfFrom_single pre], of "[]" "t @ r @ post"] s by simp
  have "skipLoop ((pre @ ''('') @ t @ CHR ''{'' # (r' @ post)) (length (pre @ ''(''))
      = Some (length (pre @ ''('') + length t)"
    using t by (rule skipLoop_complete)
  then have sk: "skipLoop s (length pre + 1) = Some (length pre + 1 + length t)"
    using s r by simp
  define i where "i = length pre + 1 + length t"
  have dr: "drop i s = r @ post" using s by (simp add: i_def)
  have i: "i < length s" "s ! i = CHR ''{''" using s r by (auto simp: nth_append i_def)
  have "depthLoop s i i 0 = map_option (\<lambda>n. slice s i (i + n)) (closeAt (drop i s) 0)"
    by (rule depthLoop_closeAt) simp
  also have "\<dots> = Some (slice s i (i + length r))"
    by (simp only: dr close_of_balanced[OF bal] option.map)
  also have "slice s i (i + length r) = r" by (simp only: slice_take_drop dr) simp
  finally have "depthLoop s i i 0 = Some r" .
  then show ?thesis using op sk[folded i_def] i unfolding extract_parts by blast
qed


text \<open>
  C4. Scanner totality. \<open>extractInlineFirstArgObject\<close> is a total function into an option
  (both of its loops terminate, and no operation of it can throw), and whenever it returns
  a text, that text is a substring of the input and a balanced block: it begins with an
  opening brace, ends with the closing brace at which the depth first returns to zero, and
  no proper prefix of it is balanced.
\<close>

theorem extractInline_balanced:
  "extractInlineFirstArgObject s = Some r \<Longrightarrow>
     (\<exists>pre post. s = pre @ r @ post) \<and> balancedBlock r"
proof -
  assume "extractInlineFirstArgObject s = Some r"
  then obtain pre t post where "s = pre @ ''('' @ t @ r @ post" and b: "balancedBlock r"
    using extract_decomp by blast
  then have "s = (pre @ ''('' @ t) @ r @ post" by simp
  then show ?thesis using b by blast
qed

theorem extractInline_balanced_witness:
  "extractInlineFirstArgObject ''f({a:{}} ,{'' = Some ''{a:{}}'' \<and>
   (\<exists>pre post. ''f({a:{}} ,{'' = pre @ ''{a:{}}'' @ post) \<and> balancedBlock ''{a:{}}''"
proof -
  have h: "extractInlineFirstArgObject ''f({a:{}} ,{'' = Some ''{a:{}}''" by code_simp
  show ?thesis using h extractInline_balanced [OF h] by simp
qed

text \<open>
  C5. \<open>extractInlineFirstArgObject\<close> returns a text \<open>r\<close> exactly when the input is some
  text without parenthesis, the first opening parenthesis, then white space and comments
  only, then the balanced block \<open>r\<close>, then anything; in every other case it returns none.
  So the next significant character after the parenthesis must be an opening brace. The
  two examples of the specification evaluate as stated.
\<close>

theorem extractInline_skips_comments:
  "(extractInlineFirstArgObject s = Some r \<longleftrightarrow>
      (\<exists>pre t post. s = pre @ ''('' @ t @ r @ post \<and> CHR ''('' \<notin> set pre \<and> trivia t \<and>
         balancedBlock r))
   \<and> extractInlineFirstArgObject ''foo(/* x */ { a: 1 })'' = Some ''{ a: 1 }''
   \<and> extractInlineFirstArgObject ''foo(args)'' = None"
proof -
  have 1: "extractInlineFirstArgObject s = Some r \<longleftrightarrow>
      (\<exists>pre t post. s = pre @ ''('' @ t @ r @ post \<and> CHR ''('' \<notin> set pre \<and> trivia t \<and>
         balancedBlock r)"
    using extract_decomp extract_complete by blast
  have 2: "extractInlineFirstArgObject ''foo(/* x */ { a: 1 })'' = Some ''{ a: 1 }''"
    by code_simp
  have 3: "extractInlineFirstArgObject ''foo(args)'' = None"
    by code_simp
  from 1 2 3 show ?thesis by blast
qed

theorem extractInline_skips_comments_witness:
  "\<exists>pre t post. ''f( // x'' @ [CHR 0x0A] @ ''{})'' = pre @ ''('' @ t @ ''{}'' @ post \<and>
     CHR ''('' \<notin> set pre \<and> trivia t \<and> balancedBlock ''{}''"
proof -
  have h: "extractInlineFirstArgObject (''f( // x'' @ [CHR 0x0A] @ ''{})'') = Some ''{}''"
    by code_simp
  show ?thesis
    using h extractInline_skips_comments [of "''f( // x'' @ [CHR 0x0A] @ ''{})''" "''{}''"]
    by blast
qed

section \<open>Properties of the positions\<close>

lemma split_lines_nonempty: "split_lines s \<noteq> []"
proof (induction s rule: split_lines.induct)
  case 1
  show ?case by simp
next
  case (2 c cs)
  show ?case by (cases "split_lines cs") auto
qed

lemma length_split_lines: "length (split_lines s) = 1 + count_list s (CHR 0x0A)"
proof (induction s rule: split_lines.induct)
  case 1
  then show ?case by simp
next
  case (2 c cs)
  show ?case
  proof (cases "c = CHR 0x0A")
    case True
    then show ?thesis using 2 by simp
  next
    case nl: False
    show ?thesis
    proof (cases "c = CHR 0x0D \<and> (case cs of [] \<Rightarrow> False | d # _ \<Rightarrow> d = CHR 0x0A)")
      case True
      then obtain cs' where cs: "cs = CHR 0x0A # cs'" by (cases cs) auto
      then show ?thesis using 2(2)[OF nl True] nl True by simp
    next
      case False
      obtain l ls where l: "split_lines cs = l # ls" using split_lines_nonempty[of cs] by (cases "split_lines cs") auto
      then show ?thesis using 2(3)[OF nl False] nl False by auto
    qed
  qed
qed

lemma split_lines_no_nl: "CHR 0x0A \<notin> set s \<Longrightarrow> split_lines s = [s]"
proof (induction s rule: split_lines.induct)
  case 1
  show ?case by simp
next
  case (2 c cs)
  then have c: "c \<noteq> CHR 0x0A" and cs: "CHR 0x0A \<notin> set cs" by auto
  have nf: "\<not> (c = CHR 0x0D \<and> (case cs of [] \<Rightarrow> False | d # _ \<Rightarrow> d = CHR 0x0A))"
    using cs by (cases cs) auto
  have "split_lines cs = [cs]" using 2(3)[OF c nf] cs by simp
  then show ?case using c nf by simp
qed

lemma last_split_lines:
  "before = [] \<or> last before = CHR 0x0A \<Longrightarrow> CHR 0x0A \<notin> set cur \<Longrightarrow>
     last (split_lines (before @ cur)) = cur"
proof (induction before rule: split_lines.induct)
  case 1
  then show ?case by (simp add: split_lines_no_nl)
next
  case (2 c cs)
  show ?case
  proof (cases "c = CHR 0x0A")
    case True
    have "cs = [] \<or> last cs = CHR 0x0A" using 2(4) by (auto split: if_splits)
    then have "last (split_lines (cs @ cur)) = cur" using 2(1)[OF True] 2(5) by simp
    then show ?thesis using True split_lines_nonempty[of "cs @ cur"] by simp
  next
    case nl: False
    then have ne: "cs \<noteq> []" and lc: "last cs = CHR 0x0A" using 2(4) by (auto split: if_splits)
    show ?thesis
    proof (cases "c = CHR 0x0D \<and> (case cs of [] \<Rightarrow> False | d # _ \<Rightarrow> d = CHR 0x0A)")
      case True
      then obtain cs' where cs: "cs = CHR 0x0A # cs'" by (cases cs) auto
      have "tl cs = [] \<or> last (tl cs) = CHR 0x0A" using lc cs by (auto split: if_splits)
      then have "last (split_lines (tl cs @ cur)) = cur" using 2(2)[OF nl True] 2(5) by simp
      then show ?thesis using nl True cs split_lines_nonempty[of "cs' @ cur"] by simp
    next
      case False
      have ih: "last (split_lines (cs @ cur)) = cur" using 2(3)[OF nl False] ne lc 2(5) by simp
      have nf: "(c = CHR 0x0D \<and> (case cs @ cur of [] \<Rightarrow> False | d # _ \<Rightarrow> d = CHR 0x0A)) = False"
        using False ne by (cases cs) auto
      have nl': "(c = CHR 0x0A) = False" using nl by simp
      have "CHR 0x0A \<in> set cs" using ne lc by (metis last_in_set)
      then have "1 \<le> count_list (cs @ cur) (CHR 0x0A)"
        by (induction cs) auto
      then have "2 \<le> length (split_lines (cs @ cur))" by (simp add: length_split_lines)
      then obtain l m ls where l: "split_lines (cs @ cur) = l # m # ls"
        by (cases "split_lines (cs @ cur)"; cases "tl (split_lines (cs @ cur))") auto
      have "split_lines ((c # cs) @ cur) = (c # l) # m # ls"
        by (simp only: append_Cons split_lines.simps nl' nf if_False l list.case)
      then show ?thesis using ih l by simp
    qed
  qed
qed

lemma firstLineCol_general:
  assumes "before = [] \<or> last before = CHR 0x0A" and "CHR 0x0A \<notin> set cur"
  shows "firstLineCol (before @ cur @ rest) (int (length (before @ cur)))
           = \<lparr>lc_line = 1 + count_list before (CHR 0x0A), lc_col = length cur\<rparr>"
proof -
  have pre: "slice (before @ cur @ rest) 0 (nat (max 0 (int (length (before @ cur))))) = before @ cur"
    by (simp add: slice_def)
  have "count_list (before @ cur) (CHR 0x0A) = count_list before (CHR 0x0A)"
    using assms(2) by (induction before) auto
  then show ?thesis
    unfolding firstLineCol_def pre Let_def
    using last_split_lines[OF assms] by (simp add: length_split_lines)
qed

text \<open>
  C8, as the code has it. A location is the index \<open>idx\<close> just after the text
  \<open>before @ cur\<close>, where \<open>before\<close> is made of the complete lines above (it is empty or ends
  with a line feed) and \<open>cur\<close> is what stands before the location on its own line. Then
  \<open>firstLineCol\<close> gives the line as 1 plus the number of line feeds in \<open>before\<close>, so the
  line is 1-based, and the column as the number of characters of \<open>cur\<close>, so the column is
  0-based. \<open>toSarif\<close> reports a finding placed that way with the same line and with the
  column plus 1.
\<close>

theorem firstLineCol_line_one_based_col_zero_based:
  assumes "before = [] \<or> last before = CHR 0x0A" and "CHR 0x0A \<notin> set cur"
  shows "firstLineCol (before @ cur @ rest) (int (length (before @ cur)))
           = \<lparr>lc_line = 1 + count_list before (CHR 0x0A), lc_col = length cur\<rparr>
    \<and> line (located f (before @ cur @ rest) (int (length (before @ cur))))
           = Some (1 + count_list before (CHR 0x0A))
    \<and> col (located f (before @ cur @ rest) (int (length (before @ cur)))) = Some (length cur)
    \<and> sr_startLine (toSarifResult root
           (located f (before @ cur @ rest) (int (length (before @ cur)))))
           = 1 + count_list before (CHR 0x0A)
    \<and> sr_startColumn (toSarifResult root
           (located f (before @ cur @ rest) (int (length (before @ cur)))))
           = length cur + 1"
  using firstLineCol_general [OF assms, of rest]
  by (simp add: located_def toSarifResult_def)

theorem firstLineCol_line_one_based_col_zero_based_witness:
  "firstLineCol (''ab'' @ [CHR 0x0A] @ ''cd'' @ ''ef'') 5 = \<lparr>lc_line = 2, lc_col = 2\<rparr>
   \<and> sr_startColumn (toSarifResult ''/r''
        (located \<lparr>ruleId = ''x'', severity = high, message = ''m'', file_path = ''/r/a.ts'',
                  line = None, col = None, fixHint = None\<rparr>
           (''ab'' @ [CHR 0x0A] @ ''cd'' @ ''ef'') 5)) = 3"
  using firstLineCol_line_one_based_col_zero_based
    [of "''ab'' @ [CHR 0x0A]" "''cd''" "''ef''"
        "\<lparr>ruleId = ''x'', severity = high, message = ''m'', file_path = ''/r/a.ts'',
          line = None, col = None, fixHint = None\<rparr>" "''/r''"]
  by simp

text \<open>
  The claim as the specification states it fails at the first character of a file: the
  column there is 0, not 1.
\<close>

theorem firstLineCol_first_character_counterexample:
  "firstLineCol ''abc'' 0 = \<lparr>lc_line = 1, lc_col = 0\<rparr>
   \<and> col (located \<lparr>ruleId = ''x'', severity = high, message = ''m'', file_path = ''/r/a.ts'',
                    line = None, col = None, fixHint = None\<rparr> ''abc'' 0) \<noteq> Some 1"
  by (simp add: located_def) code_simp

section \<open>Properties of the key detection\<close>

lemma compileKey_plain: "plainKey key \<Longrightarrow> compileKey key = Some (map Lit key)"
  by (induction key) (auto simp: plainKey_def)

lemma matchAtoms_Lit: "matchAtoms (map Lit key) s = (if startsWith s key then Some (drop (length key) s) else None)"
proof (induction key arbitrary: s)
  case Nil
  then show ?case by (simp add: startsWith_def)
next
  case (Cons k key)
  show ?case
  proof (cases s)
    case Nil
    then show ?thesis by (simp add: startsWith_def)
  next
    case (Cons c cs)
    then show ?thesis using Cons.IH[of cs] by (auto simp: startsWith_def)
  qed
qed

lemma matchHere_Lit:
  "matchHere (map Lit key) (lastOr None pre) rest = keyOccursAt (pre @ rest) key (length pre)"
proof (cases "startsWith rest key")
  case False
  then show ?thesis by (simp add: matchHere_def keyOccursAt_def matchAtoms_Lit)
next
  case True
  then have tk: "take (length key) rest = key" by (simp add: startsWith_def)
  have t: "take (length pre + length key) (pre @ rest) = pre @ key"
    using tk by simp
  have l: "lastOr (lastOr None pre) (take (length key) rest) = lastOr None (pre @ key)"
    unfolding tk by (auto simp: lastOr_def)
  have m: "matchAtoms (map Lit key) rest = Some (drop (length key) rest)"
    using True by (simp add: matchAtoms_Lit)
  show ?thesis using True
    unfolding matchHere_def keyOccursAt_def m by (simp add: t l[unfolded tk] tk)
qed

lemma regexTest_Lit:
  "regexTest (map Lit key) (lastOr None pre) rest
     \<longleftrightarrow> (\<exists>i. length pre \<le> i \<and> i \<le> length (pre @ rest) \<and> keyOccursAt (pre @ rest) key i)"
proof (induction rest arbitrary: pre)
  case Nil
  have "regexTest (map Lit key) (lastOr None pre) [] = keyOccursAt (pre @ []) key (length pre)"
    using matchHere_Lit[of key pre "[]"] by simp
  then show ?case by auto
next
  case (Cons c cs)
  have a: "matchHere (map Lit key) (lastOr None pre) (c # cs) = keyOccursAt (pre @ c # cs) key (length pre)"
    by (rule matchHere_Lit)
  have b: "regexTest (map Lit key) (lastOr None (pre @ [c])) cs
     \<longleftrightarrow> (\<exists>i. length (pre @ [c]) \<le> i \<and> i \<le> length ((pre @ [c]) @ cs) \<and> keyOccursAt ((pre @ [c]) @ cs) key i)"
    by (rule Cons.IH)
  have c: "lastOr None (pre @ [c]) = Some c" by (simp add: lastOr_def)
  have "regexTest (map Lit key) (lastOr None pre) (c # cs)
     \<longleftrightarrow> keyOccursAt (pre @ c # cs) key (length pre) \<or>
         (\<exists>i. Suc (length pre) \<le> i \<and> i \<le> length (pre @ c # cs) \<and> keyOccursAt (pre @ c # cs) key i)"
    using a b c by simp
  also have "\<dots> \<longleftrightarrow> (\<exists>i. length pre \<le> i \<and> i \<le> length (pre @ c # cs) \<and> keyOccursAt (pre @ c # cs) key i)"
  proof
    assume "keyOccursAt (pre @ c # cs) key (length pre) \<or>
         (\<exists>i. Suc (length pre) \<le> i \<and> i \<le> length (pre @ c # cs) \<and> keyOccursAt (pre @ c # cs) key i)"
    then show "\<exists>i. length pre \<le> i \<and> i \<le> length (pre @ c # cs) \<and> keyOccursAt (pre @ c # cs) key i"
    proof
      assume "keyOccursAt (pre @ c # cs) key (length pre)"
      then show ?thesis by (intro exI[of _ "length pre"]) simp
    next
      assume "\<exists>i. Suc (length pre) \<le> i \<and> i \<le> length (pre @ c # cs) \<and> keyOccursAt (pre @ c # cs) key i"
      then obtain i where "Suc (length pre) \<le> i" "i \<le> length (pre @ c # cs)" "keyOccursAt (pre @ c # cs) key i" by blast
      then show ?thesis by (intro exI[of _ i]) simp
    qed
  next
    assume "\<exists>i. length pre \<le> i \<and> i \<le> length (pre @ c # cs) \<and> keyOccursAt (pre @ c # cs) key i"
    then obtain i where i: "length pre \<le> i" "i \<le> length (pre @ c # cs)" "keyOccursAt (pre @ c # cs) key i" by blast
    show "keyOccursAt (pre @ c # cs) key (length pre) \<or>
         (\<exists>i. Suc (length pre) \<le> i \<and> i \<le> length (pre @ c # cs) \<and> keyOccursAt (pre @ c # cs) key i)"
    proof (cases "i = length pre")
      case True
      then show ?thesis using i by simp
    next
      case False
      then have "Suc (length pre) \<le> i" using i by simp
      then show ?thesis using i by blast
    qed
  qed
  finally show ?case .
qed

lemma regexTest_block:
  "regexTest (map Lit key) None block = list_ex (keyOccursAt block key) [0..<Suc (length block)]"
proof -
  have "regexTest (map Lit key) (lastOr None []) block
     \<longleftrightarrow> (\<exists>i. length ([]::string) \<le> i \<and> i \<le> length ([] @ block) \<and> keyOccursAt ([] @ block) key i)"
    by (rule regexTest_Lit)
  then have "regexTest (map Lit key) None block \<longleftrightarrow> (\<exists>i. i \<le> length block \<and> keyOccursAt block key i)"
    by (simp add: lastOr_def)
  also have "\<dots> \<longleftrightarrow> (\<exists>i\<in>set [0..<Suc (length block)]. keyOccursAt block key i)"
    by (simp only: set_upt atLeastLessThan_iff less_Suc_eq_le le0 simp_thms Bex_def)
  finally show ?thesis by (simp only: list_ex_iff)
qed

lemma whereHasTenantKey_plain:
  "list_all plainKey keys \<Longrightarrow> whereHasTenantKey block keys = Inr (blockContainsKey block keys)"
proof (induction keys)
  case Nil
  then show ?case by (simp add: blockContainsKey_def)
next
  case (Cons k keys)
  then have k: "compileKey k = Some (map Lit k)" and ih: "whereHasTenantKey block keys = Inr (blockContainsKey block keys)"
    by (auto simp: compileKey_plain)
  show ?case using k ih by (simp add: regexTest_block blockContainsKey_def)
qed

text \<open>
  C9, as the code has it. For candidate keys that hold no syntax character of regular
  expressions (identifiers are such keys), \<open>whereHasTenantKey\<close> returns true exactly when
  some key occurs in the block as it is written, between word boundaries, followed after
  optional white space by a colon. So the test is on word boundaries and not on
  substrings: \<open>orgId\<close> is not found in \<open>{ orgIdentifier: 1 }\<close> and is found in
  \<open>{ orgId: 1 }\<close>.
\<close>

theorem whereHasTenantKey_word_boundary:
  "(list_all plainKey tenantKeys \<longrightarrow>
      whereHasTenantKey whereBlock tenantKeys = Inr (blockContainsKey whereBlock tenantKeys))
   \<and> whereHasTenantKey ''{ orgIdentifier: 1 }'' [''orgId''] = Inr False
   \<and> whereHasTenantKey ''{ orgId: 1 }'' [''orgId''] = Inr True"
proof -
  have 1: "whereHasTenantKey ''{ orgIdentifier: 1 }'' [''orgId''] = Inr False"
    by code_simp
  have 2: "whereHasTenantKey ''{ orgId: 1 }'' [''orgId''] = Inr True"
    by code_simp
  from 1 2 whereHasTenantKey_plain show ?thesis by blast
qed

theorem whereHasTenantKey_word_boundary_witness:
  "list_all plainKey [''workspaceId'', ''tenantId''] \<and>
   whereHasTenantKey ''{ id, tenantId : t }'' [''workspaceId'', ''tenantId''] = Inr True"
proof -
  have p: "list_all plainKey [''workspaceId'', ''tenantId'']" by code_simp
  have b: "blockContainsKey ''{ id, tenantId : t }'' [''workspaceId'', ''tenantId'']"
    by code_simp
  show ?thesis
    using p b whereHasTenantKey_word_boundary
      [of "[''workspaceId'', ''tenantId'']" "''{ id, tenantId : t }''"]
    by simp
qed

text \<open>
  For every candidate key the claim fails: the key is read as a pattern, so the key
  \<open>org.d\<close> is found in a block in which it does not occur.
\<close>

theorem whereHasTenantKey_pattern_key_counterexample:
  "whereHasTenantKey ''{ orgId: 1 }'' [''org.d''] = Inr True
   \<and> \<not> blockContainsKey ''{ orgId: 1 }'' [''org.d'']"
  by code_simp

section \<open>Properties of the discovery prepass and of the engine\<close>

lemma set_set_add: "set (set_add xs x) = insert x (set xs)"
  by (auto simp: set_add_def)

lemma set_foldl_set_add: "set (foldl set_add xs ys) = set xs \<union> set ys"
  by (induction ys arbitrary: xs) (auto simp: set_set_add)

lemma set_new_Set: "set (new_Set xs) = set xs"
  by (simp add: new_Set_def set_foldl_set_add)

lemma set_uniq: "set (uniq xs) = set xs - {[]}"
  by (auto simp: uniq_def set_new_Set)

lemma COMMON_GUARDS_nonempty: "[] \<notin> set COMMON_GUARDS"
  by (simp add: COMMON_GUARDS_def)

lemma scanFile_guards: "set (guards acc) \<subseteq> set (guards (scanFile acc p code))"
  by (simp add: scanFile_def Let_def set_foldl_set_add)

lemma discoverLoop_guards:
  "discoverLoop toPosix ctx i fs acc = Inr acc' \<Longrightarrow> set (guards acc) \<subseteq> set (guards acc')"
proof (induction fs arbitrary: i acc)
  case Nil
  then show ?case by simp
next
  case (Cons f fs)
  let ?p = "toPosix (relPathAt ctx i f)"
  show ?case
  proof (cases "isCodePath ?p \<and> shouldScanFileForGuards toPosix ?p")
    case False
    then have "discoverLoop toPosix ctx (i + 1) fs acc = Inr acc'"
      using Cons.prems by (auto simp: Let_def split: if_splits)
    then show ?thesis by (rule Cons.IH)
  next
    case True
    show ?thesis
    proof (cases "readFile ctx f")
      case (Inl e)
      then show ?thesis using Cons.prems True by (simp add: Let_def)
    next
      case (Inr code)
      show ?thesis
      proof (cases "code = []")
        case True
        then have "discoverLoop toPosix ctx (i + 1) fs acc = Inr acc'"
          using Cons.prems \<open>isCodePath ?p \<and> shouldScanFileForGuards toPosix ?p\<close> Inr
          by (simp add: Let_def)
        then show ?thesis by (rule Cons.IH)
      next
        case False
        then have "discoverLoop toPosix ctx (i + 1) fs (scanFile acc ?p code) = Inr acc'"
          using Cons.prems True Inr by (simp add: Let_def)
        then have "set (guards (scanFile acc ?p code)) \<subseteq> set (guards acc')" by (rule Cons.IH)
        then show ?thesis using scanFile_guards[of acc ?p code] by blast
      qed
    qed
  qed
qed

lemma discoverLoop_total:
  "(\<forall>f\<in>set fs. \<exists>code. readFile ctx f = Inr code) \<Longrightarrow> \<exists>acc'. discoverLoop toPosix ctx i fs acc = Inr acc'"
proof (induction fs arbitrary: i acc)
  case Nil
  then show ?case by simp
next
  case (Cons f fs)
  then obtain code where code: "readFile ctx f = Inr code" by auto
  have ih: "\<And>i acc. \<exists>acc'. discoverLoop toPosix ctx i fs acc = Inr acc'"
    using Cons by simp
  show ?case using code ih by (simp add: Let_def)
qed

lemma discoverAuthGuards_Inr:
  "discoverAuthGuards toPosix ctx = Inr d \<longleftrightarrow>
     (\<exists>acc. discoverLoop toPosix ctx 0 (files ctx)
               \<lparr>guards = new_Set COMMON_GUARDS, publicApiExact = [], publicApiPrefix = [],
                proxyApiPrefix = []\<rparr> = Inr acc \<and>
        d = mergeWithUserConfig
              \<lparr>guards = uniq (guards acc),
               publicApiExact = uniq (map normalizeApiPath (publicApiExact acc)),
               publicApiPrefix = uniq (map normalizeApiPath (publicApiPrefix acc)),
               proxyApiPrefix = uniq (map normalizeApiPath (proxyApiPrefix acc))\<rparr> ctx)"
  by (auto simp: discoverAuthGuards_def split: sum.splits)

lemma merged_guards:
  "set (guards (mergeWithUserConfig d ctx)) =
     (set (guards d) \<union> trim ` set (cfgArray cfg_guards ctx)) - {[]}"
  by (auto simp: mergeWithUserConfig_def set_uniq)

lemma merged_publicApiExact:
  "set (publicApiExact (mergeWithUserConfig d ctx)) =
     (set (publicApiExact d) \<union> normalizeApiPath ` set (cfgArray cfg_publicApiExact ctx)) - {[]}"
  by (auto simp: mergeWithUserConfig_def set_uniq)

lemma merged_publicApiPrefix:
  "set (publicApiPrefix (mergeWithUserConfig d ctx)) =
     (set (publicApiPrefix d) \<union> normalizeApiPath ` set (cfgArray cfg_publicApiPrefix ctx)) - {[]}"
  by (auto simp: mergeWithUserConfig_def set_uniq)

lemma merged_proxyApiPrefix:
  "set (proxyApiPrefix (mergeWithUserConfig d ctx)) =
     (set (proxyApiPrefix d) \<union> normalizeApiPath ` set (cfgArray cfg_proxyApiPrefix ctx)) - {[]}"
  by (auto simp: mergeWithUserConfig_def set_uniq)

lemma discovered_has_catalogue:
  assumes "discoverAuthGuards toPosix ctx = Inr d"
  shows "set COMMON_GUARDS \<subseteq> set (guards d)"
proof -
  from assms obtain acc where
    loop: "discoverLoop toPosix ctx 0 (files ctx)
               \<lparr>guards = new_Set COMMON_GUARDS, publicApiExact = [], publicApiPrefix = [],
                proxyApiPrefix = []\<rparr> = Inr acc"
    and d: "d = mergeWithUserConfig
              \<lparr>guards = uniq (guards acc),
               publicApiExact = uniq (map normalizeApiPath (publicApiExact acc)),
               publicApiPrefix = uniq (map normalizeApiPath (publicApiPrefix acc)),
               proxyApiPrefix = uniq (map normalizeApiPath (proxyApiPrefix acc))\<rparr> ctx"
    unfolding discoverAuthGuards_Inr by blast
  have "set COMMON_GUARDS \<subseteq> set (guards acc)"
    using discoverLoop_guards[OF loop] by (simp add: set_new_Set)
  then show ?thesis
    using COMMON_GUARDS_nonempty by (auto simp: d merged_guards set_uniq)
qed

lemma discovered_has_config:
  assumes "discoverAuthGuards toPosix ctx = Inr d"
  shows "(trim ` set (cfgArray cfg_guards ctx)) - {[]} \<subseteq> set (guards d)"
    and "(normalizeApiPath ` set (cfgArray cfg_publicApiExact ctx)) - {[]} \<subseteq> set (publicApiExact d)"
    and "(normalizeApiPath ` set (cfgArray cfg_publicApiPrefix ctx)) - {[]} \<subseteq> set (publicApiPrefix d)"
    and "(normalizeApiPath ` set (cfgArray cfg_proxyApiPrefix ctx)) - {[]} \<subseteq> set (proxyApiPrefix d)"
proof -
  from assms obtain d0 where d: "d = mergeWithUserConfig d0 ctx"
    unfolding discoverAuthGuards_Inr by blast
  show "(trim ` set (cfgArray cfg_guards ctx)) - {[]} \<subseteq> set (guards d)"
    unfolding d merged_guards by blast
  show "(normalizeApiPath ` set (cfgArray cfg_publicApiExact ctx)) - {[]} \<subseteq> set (publicApiExact d)"
    unfolding d merged_publicApiExact by blast
  show "(normalizeApiPath ` set (cfgArray cfg_publicApiPrefix ctx)) - {[]} \<subseteq> set (publicApiPrefix d)"
    unfolding d merged_publicApiPrefix by blast
  show "(normalizeApiPath ` set (cfgArray cfg_proxyApiPrefix ctx)) - {[]} \<subseteq> set (proxyApiPrefix d)"
    unfolding d merged_proxyApiPrefix by blast
qed

lemma runCaught_eq:
  "returnsPromise ctx rule \<Longrightarrow> runCaught ctx rule = Inr (ruleFindings ctx rule)"
  by (simp add: runCaught_def ruleFindings_def returnsPromise_def
        split: sum.splits promise.splits)

lemma runCaught_throw: "run rule ctx = Inl e \<Longrightarrow> runCaught ctx rule = Inl e"
  by (simp add: runCaught_def)

lemma ruleLoop_eq:
  "(\<forall>rule\<in>set rules. applies ctx rule \<longrightarrow> returnsPromise ctx rule) \<Longrightarrow>
   ruleLoop ctx rules out = Inr (out @ concat (map (ruleFindings ctx) (filter (applies ctx) rules)))"
  by (induction rules arbitrary: out) (simp_all add: runCaught_eq)

text \<open>
  The loop stops at the first applicable rule whose run throws, with the error of that
  rule: the findings gathered so far are lost and the rules after it do not run.
\<close>

lemma ruleLoop_throw:
  "(\<forall>rule\<in>set rs1. applies ctx rule \<longrightarrow> returnsPromise ctx rule) \<Longrightarrow>
   applies ctx r \<Longrightarrow> run r ctx = Inl e \<Longrightarrow>
   ruleLoop ctx (rs1 @ r # rs2) out = Inl e"
  by (induction rs1 arbitrary: out) (simp_all add: runCaught_eq runCaught_throw)

lemma runRules_eq:
  "(\<forall>rule\<in>set rules. applies (snd (prepass toPosix ctx)) rule \<longrightarrow>
      returnsPromise (snd (prepass toPosix ctx)) rule) \<Longrightarrow>
   runRules toPosix ctx rules =
     Inr (fst (prepass toPosix ctx) @
          concat (map (ruleFindings (snd (prepass toPosix ctx)))
                    (filter (applies (snd (prepass toPosix ctx))) rules)))"
  by (simp add: runRules_def case_prod_beta ruleLoop_eq)

lemma runRules_throw:
  "(\<forall>rule\<in>set rs1. applies (snd (prepass toPosix ctx)) rule \<longrightarrow>
      returnsPromise (snd (prepass toPosix ctx)) rule) \<Longrightarrow>
   applies (snd (prepass toPosix ctx)) r \<Longrightarrow> run r (snd (prepass toPosix ctx)) = Inl e \<Longrightarrow>
   runRules toPosix ctx (rs1 @ r # rs2) = Inl e"
  by (simp add: runRules_def case_prod_beta ruleLoop_throw)

lemma applies_prepass: "applies (snd (prepass toPosix ctx)) rule = applies ctx rule"
  by (simp add: applies_def prepass_def stash_def split: sum.splits)

lemma rootDir_prepass: "rootDir (snd (prepass toPosix ctx)) = rootDir ctx"
  by (simp add: prepass_def stash_def split: sum.splits)

text \<open>The prepass on the example contexts.\<close>

lemma new_Set_COMMON_GUARDS: "new_Set COMMON_GUARDS = COMMON_GUARDS"
  by code_simp

lemma uniq_COMMON_GUARDS: "uniq COMMON_GUARDS = COMMON_GUARDS"
  by code_simp

lemma uniq_Nil: "uniq [] = []"
  by code_simp

lemma example_ctx_discover:
  "discoverAuthGuards (\<lambda>p. p) example_ctx =
     Inr \<lparr>guards = COMMON_GUARDS, publicApiExact = [], publicApiPrefix = [], proxyApiPrefix = []\<rparr>"
proof -
  have p: "isCodePath ''src/a.ts''" "shouldScanFileForGuards (\<lambda>p. p) ''src/a.ts''"
    by code_simp+
  have g: "discoverAuthGuardsFromCode ''const x = 1;'' = []" by code_simp
  have h: "discoverPublicApiHints ''const x = 1;'' =
             \<lparr>h_publicApiExact = [], h_publicApiPrefix = [], h_proxyApiPrefix = []\<rparr>"
    by code_simp
  have i: "inferProxyPrefixesFromPath ''src/a.ts'' = []" by code_simp
  have s: "scanFile \<lparr>guards = COMMON_GUARDS, publicApiExact = [], publicApiPrefix = [],
                     proxyApiPrefix = []\<rparr> ''src/a.ts'' ''const x = 1;''
           = \<lparr>guards = COMMON_GUARDS, publicApiExact = [], publicApiPrefix = [],
              proxyApiPrefix = []\<rparr>"
    by (simp add: scanFile_def g h i)
  show ?thesis
    by (simp add: discoverAuthGuards_def example_ctx_def example_config_def relPathAt_def
        mergeWithUserConfig_def cfgArray_def new_Set_COMMON_GUARDS uniq_COMMON_GUARDS uniq_Nil
        p s)
qed

lemma example_ctx_lists_discover:
  "discoverAuthGuards (\<lambda>p. p) example_ctx_lists =
     Inr \<lparr>guards = COMMON_GUARDS @ [''checkUser''], publicApiExact = [''/api/health''],
          publicApiPrefix = [''/api/embed''], proxyApiPrefix = [''/api/hook'']\<rparr>"
proof -
  have t: "trim '' checkUser '' = ''checkUser''" by code_simp
  have u: "uniq (COMMON_GUARDS @ [''checkUser'']) = COMMON_GUARDS @ [''checkUser'']" by code_simp
  have n: "uniq [normalizeApiPath ''api/health/''] = [''/api/health'']"
    "uniq [normalizeApiPath ''/api/embed''] = [''/api/embed'']"
    "uniq [normalizeApiPath ''/api/hook''] = [''/api/hook'']"
    by code_simp+
  show ?thesis
    by (simp add: discoverAuthGuards_def example_ctx_lists_def example_ctx_def example_config_def
        mergeWithUserConfig_def cfgArray_def new_Set_COMMON_GUARDS uniq_COMMON_GUARDS uniq_Nil
        t u n)
qed

lemma example_ctx_blank_discover:
  "discoverAuthGuards (\<lambda>p. p) example_ctx_blank =
     Inr \<lparr>guards = COMMON_GUARDS, publicApiExact = [], publicApiPrefix = [], proxyApiPrefix = []\<rparr>"
proof -
  have t: "trim '' '' = []" by code_simp
  have n: "uniq [normalizeApiPath []] = []" by code_simp
  show ?thesis
    by (simp add: discoverAuthGuards_def example_ctx_blank_def example_ctx_def example_config_def
        mergeWithUserConfig_def cfgArray_def new_Set_COMMON_GUARDS uniq_COMMON_GUARDS uniq_Nil
        t n)
qed

text \<open>
  C10. Whenever \<open>discoverAuthGuards\<close> returns, its guards hold the ten names of the
  catalogue, whatever the corpus holds: the set is seeded with the catalogue before the
  first file is read, and nothing is ever taken out. With an empty corpus it does return,
  and the ten names are there.
\<close>

theorem discoverAuthGuards_seeds_catalogue:
  "(discoverAuthGuards toPosix ctx = Inr d \<longrightarrow>
      set [''getServerSession'', ''unstable_getServerSession'', ''auth'', ''currentUser'',
           ''requireAuth'', ''requireUser'', ''requireWorkspace'', ''requireAuthedWorkspace'',
           ''withWorkspace'', ''withFeatureFlag''] \<subseteq> set (guards d))
   \<and> (files ctx = [] \<longrightarrow>
        (\<exists>d'. discoverAuthGuards toPosix ctx = Inr d' \<and> set COMMON_GUARDS \<subseteq> set (guards d')))"
proof -
  have 1: "discoverAuthGuards toPosix ctx = Inr d \<longrightarrow>
      set [''getServerSession'', ''unstable_getServerSession'', ''auth'', ''currentUser'',
           ''requireAuth'', ''requireUser'', ''requireWorkspace'', ''requireAuthedWorkspace'',
           ''withWorkspace'', ''withFeatureFlag''] \<subseteq> set (guards d)"
    using discovered_has_catalogue[of toPosix ctx d] unfolding COMMON_GUARDS_def by blast
  have 2: "files ctx = [] \<longrightarrow>
        (\<exists>d'. discoverAuthGuards toPosix ctx = Inr d' \<and> set COMMON_GUARDS \<subseteq> set (guards d'))"
  proof
    assume "files ctx = []"
    then obtain d' where "discoverAuthGuards toPosix ctx = Inr d'"
      by (simp add: discoverAuthGuards_def)
    then show "\<exists>d'. discoverAuthGuards toPosix ctx = Inr d' \<and> set COMMON_GUARDS \<subseteq> set (guards d')"
      using discovered_has_catalogue by blast
  qed
  from 1 2 show ?thesis by blast
qed

theorem discoverAuthGuards_seeds_catalogue_witness:
  "discoverAuthGuards (\<lambda>p. p) example_ctx =
     Inr \<lparr>guards = COMMON_GUARDS, publicApiExact = [], publicApiPrefix = [], proxyApiPrefix = []\<rparr>
   \<and> set [''getServerSession'', ''unstable_getServerSession'', ''auth'', ''currentUser'',
           ''requireAuth'', ''requireUser'', ''requireWorkspace'', ''requireAuthedWorkspace'',
           ''withWorkspace'', ''withFeatureFlag'']
       \<subseteq> set (guards \<lparr>guards = COMMON_GUARDS, publicApiExact = [], publicApiPrefix = [],
                        proxyApiPrefix = []\<rparr>)
   \<and> files example_ctx_lists = []
   \<and> (\<exists>d'. discoverAuthGuards (\<lambda>p. p) example_ctx_lists = Inr d' \<and>
              set COMMON_GUARDS \<subseteq> set (guards d'))"
proof -
  have h: "discoverAuthGuards (\<lambda>p. p) example_ctx =
     Inr \<lparr>guards = COMMON_GUARDS, publicApiExact = [], publicApiPrefix = [], proxyApiPrefix = []\<rparr>"
    by (rule example_ctx_discover)
  have e: "files example_ctx_lists = []"
    by (simp add: example_ctx_lists_def)
  have 1: "set [''getServerSession'', ''unstable_getServerSession'', ''auth'', ''currentUser'',
           ''requireAuth'', ''requireUser'', ''requireWorkspace'', ''requireAuthedWorkspace'',
           ''withWorkspace'', ''withFeatureFlag'']
       \<subseteq> set (guards \<lparr>guards = COMMON_GUARDS, publicApiExact = [], publicApiPrefix = [],
                        proxyApiPrefix = []\<rparr>)"
    using h discoverAuthGuards_seeds_catalogue
      [of "\<lambda>p. p" example_ctx
          "\<lparr>guards = COMMON_GUARDS, publicApiExact = [], publicApiPrefix = [], proxyApiPrefix = []\<rparr>"]
    by blast
  have 2: "\<exists>d'. discoverAuthGuards (\<lambda>p. p) example_ctx_lists = Inr d' \<and>
              set COMMON_GUARDS \<subseteq> set (guards d')"
    using e discoverAuthGuards_seeds_catalogue [of "\<lambda>p. p" example_ctx_lists]
    by blast
  from h e 1 2 show ?thesis by blast
qed

text \<open>
  C7, as the code has it. \<open>mergeWithUserConfig\<close> reads the user's lists from
  \<open>ctx.config.auth\<close>. When that is an object, every entry of its array \<open>guards\<close> that is
  not blank is among the guards returned, trimmed, and every entry of its arrays
  \<open>publicApiExact\<close>, \<open>publicApiPrefix\<close> and \<open>proxyApiPrefix\<close> that is not blank is in the
  list of the same name, normalized; whatever the corpus holds.
\<close>

theorem mergeWithUserConfig_keeps_auth_lists:
  assumes "discoverAuthGuards toPosix ctx = Inr d" and "auth (config ctx) = AuthObject a"
  shows "(\<forall>gs g. cfg_guards a = Some gs \<and> g \<in> set gs \<and> trim g \<noteq> []
             \<longrightarrow> trim g \<in> set (guards d))
    \<and> (\<forall>ps p. cfg_publicApiExact a = Some ps \<and> p \<in> set ps \<and> normalizeApiPath p \<noteq> []
             \<longrightarrow> normalizeApiPath p \<in> set (publicApiExact d))
    \<and> (\<forall>ps p. cfg_publicApiPrefix a = Some ps \<and> p \<in> set ps \<and> normalizeApiPath p \<noteq> []
             \<longrightarrow> normalizeApiPath p \<in> set (publicApiPrefix d))
    \<and> (\<forall>ps p. cfg_proxyApiPrefix a = Some ps \<and> p \<in> set ps \<and> normalizeApiPath p \<noteq> []
             \<longrightarrow> normalizeApiPath p \<in> set (proxyApiPrefix d))"
proof -
  have c: "\<And>field xs. field a = Some xs \<Longrightarrow> cfgArray field ctx = xs"
    using assms(2) by (simp add: cfgArray_def)
  note h = discovered_has_config[OF assms(1)]
  have 1: "\<forall>gs g. cfg_guards a = Some gs \<and> g \<in> set gs \<and> trim g \<noteq> [] \<longrightarrow> trim g \<in> set (guards d)"
    using h(1) c[of cfg_guards] by blast
  have 2: "\<forall>ps p. cfg_publicApiExact a = Some ps \<and> p \<in> set ps \<and> normalizeApiPath p \<noteq> []
             \<longrightarrow> normalizeApiPath p \<in> set (publicApiExact d)"
    using h(2) c[of cfg_publicApiExact] by blast
  have 3: "\<forall>ps p. cfg_publicApiPrefix a = Some ps \<and> p \<in> set ps \<and> normalizeApiPath p \<noteq> []
             \<longrightarrow> normalizeApiPath p \<in> set (publicApiPrefix d)"
    using h(3) c[of cfg_publicApiPrefix] by blast
  have 4: "\<forall>ps p. cfg_proxyApiPrefix a = Some ps \<and> p \<in> set ps \<and> normalizeApiPath p \<noteq> []
             \<longrightarrow> normalizeApiPath p \<in> set (proxyApiPrefix d)"
    using h(4) c[of cfg_proxyApiPrefix] by blast
  from 1 2 3 4 show ?thesis by blast
qed

theorem mergeWithUserConfig_keeps_auth_lists_witness:
  "discoverAuthGuards (\<lambda>p. p) example_ctx_lists =
     Inr \<lparr>guards = COMMON_GUARDS @ [''checkUser''], publicApiExact = [''/api/health''],
          publicApiPrefix = [''/api/embed''], proxyApiPrefix = [''/api/hook'']\<rparr>
   \<and> trim '' checkUser '' \<in> set (COMMON_GUARDS @ [''checkUser''])
   \<and> normalizeApiPath ''api/health/'' \<in> set [''/api/health'']"
proof -
  let ?d = "\<lparr>guards = COMMON_GUARDS @ [''checkUser''], publicApiExact = [''/api/health''],
          publicApiPrefix = [''/api/embed''], proxyApiPrefix = [''/api/hook'']\<rparr>"
  let ?a = "\<lparr>cfg_guards = Some ['' checkUser ''], cfg_publicApiExact = Some [''api/health/''],
          cfg_publicApiPrefix = Some [''/api/embed''], cfg_proxyApiPrefix = Some [''/api/hook'']\<rparr>"
  have h1: "discoverAuthGuards (\<lambda>p. p) example_ctx_lists = Inr ?d"
    by (rule example_ctx_lists_discover)
  have h2: "auth (config example_ctx_lists) = AuthObject ?a"
    by (simp add: example_ctx_lists_def example_ctx_def example_config_def)
  have t: "trim '' checkUser '' \<noteq> []" by code_simp
  have n: "normalizeApiPath ''api/health/'' \<noteq> []" by code_simp
  note th = mergeWithUserConfig_keeps_auth_lists [OF h1 h2]
  have "trim '' checkUser '' \<in> set (guards ?d)"
    using th t by simp
  moreover have "normalizeApiPath ''api/health/'' \<in> set (publicApiExact ?d)"
    using th n by simp
  ultimately show ?thesis using h1 by simp
qed

text \<open>
  The claim as the specification states it fails: the guard names of
  \<open>ctx.config.authGuards\<close> are not merged, and a blank entry of the lists of
  \<open>ctx.config.auth\<close> is dropped.
\<close>

theorem discoverAuthGuards_config_counterexample:
  "discoverAuthGuards (\<lambda>p. p) example_ctx_blank =
     Inr \<lparr>guards = COMMON_GUARDS, publicApiExact = [], publicApiPrefix = [], proxyApiPrefix = []\<rparr>
   \<and> authGuards (config example_ctx_blank) = [''myGuard'']
   \<and> ''myGuard'' \<notin> set COMMON_GUARDS
   \<and> cfgArray cfg_guards example_ctx_blank = ['' '']
   \<and> trim '' '' \<notin> set COMMON_GUARDS
   \<and> cfgArray cfg_publicApiExact example_ctx_blank = [[]]"
proof -
  have 1: "''myGuard'' \<notin> set COMMON_GUARDS" by code_simp
  have 2: "trim '' '' \<notin> set COMMON_GUARDS" by code_simp
  show ?thesis
    using example_ctx_blank_discover 1 2
    by (simp add: example_ctx_blank_def example_ctx_def example_config_def cfgArray_def)
qed

text \<open>
  Rules that return a promise are isolated from each other. Let every applicable rule of
  \<open>rs1\<close> and of \<open>rs2\<close> return a promise on the context that the prepass hands to the rules,
  let the rule \<open>r\<close> apply and let its promise be rejected with the error \<open>e\<close>. Then
  \<open>runRules\<close> returns what it returns for \<open>rs1\<close> alone, then exactly one finding of
  severity \<open>info\<close> with the id of \<open>r\<close> and the message of \<open>e\<close>, then the findings of \<open>rs2\<close>;
  had the promise of \<open>r\<close> been fulfilled with the findings \<open>fs\<close>, the result would differ
  in that one place only.
\<close>

lemma runRules_isolates_rejections:
  assumes "applies ctx r" and "run r (snd (prepass toPosix ctx)) = Inr (Rejected e)"
    and "\<forall>rule\<in>set (rs1 @ rs2). applies (snd (prepass toPosix ctx)) rule \<longrightarrow>
           returnsPromise (snd (prepass toPosix ctx)) rule"
  shows "\<exists>pre post.
     runRules toPosix ctx rs1 = Inr pre \<and>
     runRules toPosix ctx rs2 = Inr (fst (prepass toPosix ctx) @ post) \<and>
     runRules toPosix ctx (rs1 @ r # rs2) =
       Inr (pre @ [\<lparr>ruleId = rule_id r, severity = info,
                    message = ''Rule crashed: '' @ error_message e,
                    file_path = rootDir ctx, line = None, col = None, fixHint = None\<rparr>] @ post) \<and>
     (\<forall>(g :: RuleContext \<Rightarrow> js_error + Finding list promise) fs.
        g (snd (prepass toPosix ctx)) = Inr (Fulfilled fs) \<longrightarrow>
        runRules toPosix ctx (rs1 @ r\<lparr>run := g\<rparr> # rs2) = Inr (pre @ fs @ post))"
proof -
  let ?c = "snd (prepass toPosix ctx)"
  let ?pre = "fst (prepass toPosix ctx) @ concat (map (ruleFindings ?c) (filter (applies ?c) rs1))"
  let ?post = "concat (map (ruleFindings ?c) (filter (applies ?c) rs2))"
  have a: "applies ?c r" using assms(1) by (simp add: applies_prepass)
  have p: "returnsPromise ?c r" using assms(2) by (simp add: returnsPromise_def)
  have ps1: "\<forall>rule\<in>set rs1. applies ?c rule \<longrightarrow> returnsPromise ?c rule"
    using assms(3) by simp
  have ps2: "\<forall>rule\<in>set rs2. applies ?c rule \<longrightarrow> returnsPromise ?c rule"
    using assms(3) by simp
  have ps: "\<forall>rule\<in>set (rs1 @ r # rs2). applies ?c rule \<longrightarrow> returnsPromise ?c rule"
    using assms(3) p by simp
  have f: "ruleFindings ?c r = [crashFinding ?c r e]"
    using assms(2) by (simp add: ruleFindings_def)
  have cf: "crashFinding ?c r e = \<lparr>ruleId = rule_id r, severity = info,
                    message = ''Rule crashed: '' @ error_message e,
                    file_path = rootDir ctx, line = None, col = None, fixHint = None\<rparr>"
    by (simp add: crashFinding_def rootDir_prepass)
  have 1: "runRules toPosix ctx rs1 = Inr ?pre" using ps1 by (simp add: runRules_eq)
  have 2: "runRules toPosix ctx rs2 = Inr (fst (prepass toPosix ctx) @ ?post)"
    using ps2 by (simp add: runRules_eq)
  have 3: "runRules toPosix ctx (rs1 @ r # rs2) =
       Inr (?pre @ [\<lparr>ruleId = rule_id r, severity = info,
                    message = ''Rule crashed: '' @ error_message e,
                    file_path = rootDir ctx, line = None, col = None, fixHint = None\<rparr>] @ ?post)"
    unfolding runRules_eq [OF ps] using a f cf by simp
  have 4: "\<forall>(g :: RuleContext \<Rightarrow> js_error + Finding list promise) fs.
        g ?c = Inr (Fulfilled fs) \<longrightarrow>
        runRules toPosix ctx (rs1 @ r\<lparr>run := g\<rparr> # rs2) = Inr (?pre @ fs @ ?post)"
  proof (intro allI impI)
    fix g :: "RuleContext \<Rightarrow> js_error + Finding list promise" and fs
    assume g: "g ?c = Inr (Fulfilled fs)"
    have a': "applies ?c (r\<lparr>run := g\<rparr>)" using a by (simp add: applies_def)
    have p': "returnsPromise ?c (r\<lparr>run := g\<rparr>)" using g by (simp add: returnsPromise_def)
    have f': "ruleFindings ?c (r\<lparr>run := g\<rparr>) = fs" using g by (simp add: ruleFindings_def)
    have ps': "\<forall>rule\<in>set (rs1 @ r\<lparr>run := g\<rparr> # rs2).
        applies ?c rule \<longrightarrow> returnsPromise ?c rule"
      using assms(3) p' by simp
    show "runRules toPosix ctx (rs1 @ r\<lparr>run := g\<rparr> # rs2) = Inr (?pre @ fs @ ?post)"
      unfolding runRules_eq [OF ps'] using a' f' by simp
  qed
  from 1 2 3 4 show ?thesis by blast
qed

text \<open>
  With rules that return a promise \<open>runRules\<close> returns a list of findings, never an error.
\<close>

lemma runRules_total_on_promises:
  "(\<forall>rule\<in>set rules. applies (snd (prepass toPosix ctx)) rule \<longrightarrow>
      returnsPromise (snd (prepass toPosix ctx)) rule) \<Longrightarrow>
   \<exists>out. runRules toPosix ctx rules = Inr out"
  by (simp add: runRules_eq)

text \<open>
  C1. Crash isolation asks that a rule whose detection fails gives exactly one finding of
  severity \<open>info\<close> with its id and the message of the failure, that the findings of the
  other rules stay what they are, and that \<open>runRules\<close> itself never fails. The code keeps
  this for a run whose promise is rejected and breaks it for a run that throws before it
  returns a promise: the handler of the rule loop is attached to the returned promise,
  where the prepass of the same function stands in a \<open>try\<close> block. On the example context,
  with the succeeding rule before and after: the rule that throws \<open>boom\<close> makes \<open>runRules\<close>
  fail with \<open>boom\<close>, and the findings of the two other rules are gone; the rule whose
  promise is rejected with \<open>boom\<close> gives the one finding, between the findings of the two
  other rules.
\<close>

theorem runRules_sync_throw_escapes:
  "runRules (\<lambda>p. p) example_ctx [example_rule_ok, example_rule_throwing, example_rule_ok] =
     Inl (JsError ''boom'')
   \<and> runRules (\<lambda>p. p) example_ctx [example_rule_ok, example_rule_failing, example_rule_ok] =
     Inr [example_finding,
          \<lparr>ruleId = ''bad'', severity = info, message = ''Rule crashed: boom'',
           file_path = ''/r'', line = None, col = None, fixHint = None\<rparr>,
          example_finding]
   \<and> runRules (\<lambda>p. p) example_ctx [example_rule_ok, example_rule_ok] =
     Inr [example_finding, example_finding]"
proof -
  have pp: "prepass (\<lambda>p. p) example_ctx =
      ([], stash example_ctx (Discovered \<lparr>guards = COMMON_GUARDS, publicApiExact = [],
             publicApiPrefix = [], proxyApiPrefix = []\<rparr>))"
    by (simp add: prepass_def example_ctx_discover)
  show ?thesis
    unfolding runRules_def pp
    by (simp add: runCaught_def crashFinding_def applies_def example_rule_ok_def
          example_rule_failing_def example_rule_throwing_def stash_def example_ctx_def)
qed

end
